theory Spec2Isabelle
  imports Main "HOL-Library.Sublist" "HOL-Library.Char_ord" "HOL-Library.List_Lexorder" "HOL-Library.Multiset"
begin

section \<open>Python strings\<close>

text \<open>
  A Python \<open>str\<close> is modelled as a \<open>string\<close>; its characters are the code points 0
  to 255. The white space of \<open>str.strip\<close>, \<open>str.isspace\<close> and the regular expression
  \<open>\\s\<close> is the code points 9 to 13, 28 to 31, 32, 133 and 160.
\<close>

datatype py_error = OSError | ValueError | IndexError | ReError

definition py_isspace :: "char \<Rightarrow> bool" where
  "py_isspace c = (of_char c \<in> {9, 10, 11, 12, 13, 28, 29, 30, 31, 32, 133, 160 :: nat})"

text \<open>The ranges \<open>a-z\<close>, \<open>A-Z\<close> and \<open>0-9\<close>.\<close>

definition ascii_lower :: "char \<Rightarrow> bool" where
  "ascii_lower c = (97 \<le> (of_char c :: nat) \<and> (of_char c :: nat) \<le> 122)"

definition ascii_upper :: "char \<Rightarrow> bool" where
  "ascii_upper c = (65 \<le> (of_char c :: nat) \<and> (of_char c :: nat) \<le> 90)"

definition ascii_digit :: "char \<Rightarrow> bool" where
  "ascii_digit c = (48 \<le> (of_char c :: nat) \<and> (of_char c :: nat) \<le> 57)"

text \<open>
  \<open>str.lower\<close> on one character: the letters \<open>A\<close> to \<open>Z\<close> and the letters 192 to
  222, without the sign 215, go to the code point 32 higher; every other character stays.
\<close>

definition lower_char :: "char \<Rightarrow> char" where
  "lower_char c =
     (if ascii_upper c \<or>
         (192 \<le> (of_char c :: nat) \<and> (of_char c :: nat) \<le> 222 \<and> (of_char c :: nat) \<noteq> 215)
      then char_of (of_char c + (32 :: nat)) else c)"

text \<open>
  \<open>str.upper\<close> on one character: the letters \<open>a\<close> to \<open>z\<close> and the letters 224 to
  254, without the sign 247, go to the code point 32 lower. The upper case of the
  characters 181, 223 and 255 is not one character from 0 to 255; they are left as they
  are here, and \<open>has_upper\<close> holds of every other character.
\<close>

definition upper_char :: "char \<Rightarrow> char" where
  "upper_char c =
     (if ascii_lower c \<or>
         (224 \<le> (of_char c :: nat) \<and> (of_char c :: nat) \<le> 254 \<and> (of_char c :: nat) \<noteq> 247)
      then char_of (of_char c - (32 :: nat)) else c)"

definition has_upper :: "char \<Rightarrow> bool" where
  "has_upper c = (of_char c \<notin> {181, 223, 255 :: nat})"

definition py_upper :: "string \<Rightarrow> string" where
  "py_upper s = map upper_char s"

definition py_lower :: "string \<Rightarrow> string" where
  "py_lower s = map lower_char s"

definition py_lstrip :: "string \<Rightarrow> string" where
  "py_lstrip s = dropWhile py_isspace s"

definition py_rstrip :: "string \<Rightarrow> string" where
  "py_rstrip s = rev (dropWhile py_isspace (rev s))"

definition py_strip :: "string \<Rightarrow> string" where
  "py_strip s = py_rstrip (py_lstrip s)"

definition endswith :: "string \<Rightarrow> string \<Rightarrow> bool" where
  "endswith s suf = (length suf \<le> length s \<and> drop (length s - length suf) s = suf)"

text \<open>The truth value of \<open>str | None\<close>: \<open>None\<close> and the empty string are false.\<close>

fun truthy :: "string option \<Rightarrow> bool" where
  "truthy None = False"
| "truthy (Some s) = (s \<noteq> [])"

section \<open>The identifier normalizer\<close>

definition DUPLICATE_SUFFIXES :: "string list" where
  "DUPLICATE_SUFFIXES = [''-UC'', ''-C'']"

text \<open>
  The \<open>for\<close> loop over the suffixes: the first suffix the string ends with, if any.
\<close>

definition first_suffix :: "string \<Rightarrow> string option" where
  "first_suffix avid = find (endswith avid) DUPLICATE_SUFFIXES"

lemma first_suffix_shorter:
  "first_suffix avid = Some suf \<Longrightarrow> length avid - length suf < length avid"
  by (auto simp: first_suffix_def DUPLICATE_SUFFIXES_def endswith_def split: if_splits)

text \<open>
  The \<open>while True\<close> loop: one pass removes the first matching suffix
  (\<open>avid[:-len(suffix)]\<close>) and starts again; a pass that removes nothing ends the loop.
\<close>

function strip_suffixes :: "string \<Rightarrow> string" where
  "strip_suffixes avid =
     (case first_suffix avid of
        Some suf \<Rightarrow> strip_suffixes (take (length avid - length suf) avid)
      | None \<Rightarrow> avid)"
  by pat_completeness auto
termination
  by (relation "measure length") (auto dest: first_suffix_shorter)

declare strip_suffixes.simps [simp del]

definition normalize_duplicate_avid :: "string option \<Rightarrow> string option" where
  "normalize_duplicate_avid v =
     (if \<not> truthy v then None
      else Some (strip_suffixes (py_upper (py_strip (the v)))))"

section \<open>More of Python's string methods\<close>

text \<open>\<open>s.find(c)\<close> for a single character: the first index, \<open>None\<close> for \<open>-1\<close>.\<close>

fun find_char :: "char \<Rightarrow> string \<Rightarrow> nat option" where
  "find_char c [] = None"
| "find_char c (x # xs) = (if x = c then Some 0 else map_option Suc (find_char c xs))"

text \<open>\<open>s.rfind(c)\<close>: the last index, \<open>None\<close> for \<open>-1\<close>.\<close>

fun rfind_char :: "char \<Rightarrow> string \<Rightarrow> nat option" where
  "rfind_char c [] = None"
| "rfind_char c (x # xs) =
     (case rfind_char c xs of
        Some i \<Rightarrow> Some (Suc i)
      | None \<Rightarrow> if x = c then Some 0 else None)"

text \<open>\<open>s.split(c)\<close> for a single character; the result is never empty.\<close>

fun split_char :: "char \<Rightarrow> string \<Rightarrow> string list" where
  "split_char c [] = [[]]"
| "split_char c (x # xs) =
     (case split_char c xs of
        [] \<Rightarrow> [[x]]
      | w # ws \<Rightarrow> if x = c then [] # w # ws else (x # w) # ws)"

text \<open>\<open>sub in s\<close>.\<close>

fun contains :: "string \<Rightarrow> string \<Rightarrow> bool" where
  "contains sub [] = (sub = [])"
| "contains sub (x # xs) = (prefix sub (x # xs) \<or> contains sub xs)"

definition rstrip_char :: "char \<Rightarrow> string \<Rightarrow> string" where
  "rstrip_char c s = rev (dropWhile (\<lambda>x. x = c) (rev s))"

definition replace_char :: "char \<Rightarrow> char \<Rightarrow> string \<Rightarrow> string" where
  "replace_char a b s = map (\<lambda>x. if x = a then b else x) s"

section \<open>Paths and the file system\<close>

text \<open>
  The functions of \<open>os.path\<close> are the POSIX ones (\<open>os.sep\<close> is \<open>/\<close>).
\<close>

definition path_join :: "string \<Rightarrow> string \<Rightarrow> string" where
  "path_join a b =
     (if prefix ''/'' b then b
      else if a = [] \<or> endswith a ''/'' then a @ b
      else a @ ''/'' @ b)"

definition basename :: "string \<Rightarrow> string" where
  "basename p = (case rfind_char CHR ''/'' p of None \<Rightarrow> p | Some i \<Rightarrow> drop (Suc i) p)"

text \<open>\<open>os.path.split(p)[0]\<close>.\<close>

definition dirname :: "string \<Rightarrow> string" where
  "dirname p =
     (let head = (case rfind_char CHR ''/'' p of None \<Rightarrow> [] | Some i \<Rightarrow> take (Suc i) p)
      in if head \<noteq> [] \<and> head \<noteq> replicate (length head) CHR ''/''
         then rstrip_char CHR ''/'' head else head)"

text \<open>
  \<open>os.path.splitext(p)[1]\<close>: the text from the last dot on, when that dot comes after
  the last separator and after a character of the file name that is not a dot.
\<close>

definition splitext_ext :: "string \<Rightarrow> string" where
  "splitext_ext p =
     (let filenameIndex = (case rfind_char CHR ''/'' p of None \<Rightarrow> 0 | Some i \<Rightarrow> Suc i)
      in case rfind_char CHR ''.'' p of
           None \<Rightarrow> []
         | Some dotIndex \<Rightarrow>
             if filenameIndex \<le> dotIndex \<and>
                (\<exists>x \<in> set (take (dotIndex - filenameIndex) (drop filenameIndex p)). x \<noteq> CHR ''.'')
             then drop dotIndex p else [])"

text \<open>\<open>os.path.normpath\<close>.\<close>

fun normpath_comps :: "bool \<Rightarrow> string list \<Rightarrow> string list \<Rightarrow> string list" where
  "normpath_comps initial_slashes new_comps [] = new_comps"
| "normpath_comps initial_slashes new_comps (c # comps) =
     (if c = [] \<or> c = ''.'' then normpath_comps initial_slashes new_comps comps
      else if c \<noteq> ''..'' \<or> (\<not> initial_slashes \<and> new_comps = [])
                \<or> (new_comps \<noteq> [] \<and> last new_comps = ''..'')
      then normpath_comps initial_slashes (new_comps @ [c]) comps
      else if new_comps \<noteq> [] then normpath_comps initial_slashes (butlast new_comps) comps
      else normpath_comps initial_slashes new_comps comps)"

fun join_with :: "string \<Rightarrow> string list \<Rightarrow> string" where
  "join_with sep [] = []"
| "join_with sep [x] = x"
| "join_with sep (x # y # ys) = x @ sep @ join_with sep (y # ys)"

definition normpath :: "string \<Rightarrow> string" where
  "normpath path =
     (if path = [] then ''.''
      else
        let initial_slashes =
              (if \<not> prefix ''/'' path then 0
               else if prefix ''//'' path \<and> \<not> prefix ''///'' path then 2 else 1 :: nat);
            new_comps = normpath_comps (initial_slashes \<noteq> 0) [] (split_char CHR ''/'' path);
            p = replicate initial_slashes CHR ''/'' @ join_with ''/'' new_comps
        in if p = [] then ''.'' else p)"

text \<open>
  A file system is a tree: a regular file with its size in bytes, or a directory with its
  entries in the order in which the system lists them; the flag of a directory says
  whether it can be listed. The process has a current directory, given by the names
  that lead to it from the top.
\<close>

datatype node = File nat | Dir bool "(string \<times> node) list"

record filesystem =
  fs_root :: node
  fs_cwd :: "string list"

fun is_dir_node :: "node \<Rightarrow> bool" where
  "is_dir_node (Dir _ _) = True"
| "is_dir_node (File _) = False"

text \<open>
  Following a path, one component at a time, from a stack of the directories entered so
  far. Only a directory can be left by a further component, and \<open>..\<close> at the top stays
  there.
\<close>

fun descend :: "node list \<Rightarrow> string list \<Rightarrow> node option" where
  "descend [] cs = None"
| "descend (n # st) [] = Some n"
| "descend (n # st) (c # cs) =
     (case n of
        File _ \<Rightarrow> None
      | Dir _ es \<Rightarrow>
          if c = [] \<or> c = ''.'' then descend (n # st) cs
          else if c = ''..'' then descend (if st = [] then [n] else st) cs
          else (case map_of es c of
                  None \<Rightarrow> None
                | Some child \<Rightarrow> descend (child # n # st) cs))"

definition resolve :: "filesystem \<Rightarrow> string \<Rightarrow> node option" where
  "resolve fs p =
     (if p = [] then None
      else descend [fs_root fs]
             ((if prefix ''/'' p then [] else fs_cwd fs) @ split_char CHR ''/'' p))"

definition isdir :: "filesystem \<Rightarrow> string \<Rightarrow> bool" where
  "isdir fs p = (case resolve fs p of Some (Dir _ _) \<Rightarrow> True | _ \<Rightarrow> False)"

text \<open>\<open>os.listdir\<close> raises \<open>OSError\<close> on anything but a directory that can be listed.\<close>

definition listdir :: "filesystem \<Rightarrow> string \<Rightarrow> py_error + string list" where
  "listdir fs p =
     (case resolve fs p of
        Some (Dir True es) \<Rightarrow> Inr (map fst es)
      | _ \<Rightarrow> Inl OSError)"

section \<open>The path-pattern matcher\<close>

definition split_output_pattern :: "string \<Rightarrow> string \<times> string list" where
  "split_output_pattern pattern =
     (let normalized = py_strip (replace_char (CHR 0x5C) CHR ''/'' pattern);
          (base, tail) =
            (case find_char CHR ''{'' normalized of
               None \<Rightarrow> (normalized, [])
             | Some first_placeholder \<Rightarrow>
                 (case rfind_char CHR ''/'' (take first_placeholder normalized) of
                    None \<Rightarrow> ([], normalized)
                  | Some last_sep \<Rightarrow> (take last_sep normalized, drop (Suc last_sep) normalized)))
      in (rstrip_char CHR ''/'' base, filter (\<lambda>seg. seg \<noteq> []) (split_char CHR ''/'' tail)))"

text \<open>
  A compiled segment is the list of its parts, matched one after the other against a
  whole name (\<open>^...$\<close>): a literal (\<open>re.escape\<close>), the capturing group
  \<open>(?P<num>[^/]+)\<close>, the plain \<open>[^/]+\<close>, and \<open>.+\<close> for an empty expression.
\<close>

datatype part = Lit string | Num | Wild | AnyPlus

text \<open>
  One match of \<open>\{([^}]+)\}\<close> at the head of the text: the group and the text after the
  closing brace. The greedy group takes every character up to the next closing brace, and
  giving some back cannot help.
\<close>

definition placeholder_at :: "string \<Rightarrow> (string \<times> string) option" where
  "placeholder_at s =
     (case s of
        [] \<Rightarrow> None
      | c # t \<Rightarrow>
          if c = CHR ''{'' then
            (let body = takeWhile (\<lambda>x. x \<noteq> CHR ''}'') t;
                 rest = dropWhile (\<lambda>x. x \<noteq> CHR ''}'') t
             in if body \<noteq> [] \<and> rest \<noteq> [] then Some (body, tl rest) else None)
          else None)"

lemma placeholder_at_shorter:
  assumes "placeholder_at s = Some (name, rest)"
  shows "length rest < length s"
proof -
  from assms obtain c t where s: "s = c # t"
    by (cases s) (auto simp: placeholder_at_def)
  from assms s have "rest = tl (dropWhile (\<lambda>x. x \<noteq> CHR ''}'') t)"
    by (auto simp: placeholder_at_def Let_def split: if_splits)
  then have "length rest \<le> length t"
    using length_dropWhile_le[of "\<lambda>x. x \<noteq> CHR ''}''" t] by simp
  with s show ?thesis by simp
qed

text \<open>
  The loop over \<open>finditer\<close>: the literal collected since the last placeholder, then
  the text still to scan.
\<close>

function segment_parts :: "string \<Rightarrow> string \<Rightarrow> part list" where
  "segment_parts literal [] = [Lit literal]"
| "segment_parts literal (c # cs) =
     (case placeholder_at (c # cs) of
        Some (name, rest) \<Rightarrow>
          Lit literal # (if py_strip name = ''num'' then Num else Wild) # segment_parts [] rest
      | None \<Rightarrow> segment_parts (literal @ [c]) cs)"
  by pat_completeness auto
termination
  by (relation "measure (\<lambda>(literal, s). length s)") (auto dest: placeholder_at_shorter)

fun is_empty_lit :: "part \<Rightarrow> bool" where
  "is_empty_lit (Lit l) = (l = [])"
| "is_empty_lit _ = False"

text \<open>
  \<open>re.compile\<close> refuses a pattern that names the group \<open>num\<close> twice; this is the only
  error an expression built here can have.
\<close>

definition compile_segment_regex :: "string \<Rightarrow> py_error + part list" where
  "compile_segment_regex segment =
     (let parts = segment_parts [] segment;
          expr = (if list_all is_empty_lit parts then [AnyPlus] else parts)
      in if 1 < length (filter (\<lambda>p. p = Num) expr) then Inl ReError else Inr expr)"

datatype match_result = NoMatch | Match "string option"

text \<open>The greedy \<open>+\<close>: the longest run first, then one character less, down to one.\<close>

fun first_match :: "(nat \<Rightarrow> match_result) \<Rightarrow> nat \<Rightarrow> match_result" where
  "first_match f 0 = NoMatch"
| "first_match f (Suc n) = (case f (Suc n) of NoMatch \<Rightarrow> first_match f n | Match g \<Rightarrow> Match g)"

definition run_length :: "char \<Rightarrow> string \<Rightarrow> nat" where
  "run_length stop s = length (takeWhile (\<lambda>x. x \<noteq> stop) s)"

text \<open>
  \<open>regex.match(name)\<close> with the value of the group \<open>num\<close>. The final \<open>$\<close> also
  matches before a newline that ends the name.
\<close>

fun match_parts :: "part list \<Rightarrow> string \<Rightarrow> match_result" where
  "match_parts [] s = (if s = [] \<or> s = [CHR 0x0A] then Match None else NoMatch)"
| "match_parts (Lit l # ps) s =
     (if prefix l s then match_parts ps (drop (length l) s) else NoMatch)"
| "match_parts (Num # ps) s =
     first_match
       (\<lambda>n. case match_parts ps (drop n s) of
               NoMatch \<Rightarrow> NoMatch
             | Match g \<Rightarrow> Match (Some (take n s)))
       (run_length CHR ''/'' s)"
| "match_parts (Wild # ps) s =
     first_match (\<lambda>n. match_parts ps (drop n s)) (run_length CHR ''/'' s)"
| "match_parts (AnyPlus # ps) s =
     first_match (\<lambda>n. match_parts ps (drop n s)) (run_length (CHR 0x0A) s)"

text \<open>
  Compiling the segments in order; the first error ends it, as the exception would.
\<close>

fun compile_segments :: "string list \<Rightarrow> py_error + part list list" where
  "compile_segments [] = Inr []"
| "compile_segments (seg # segs) =
     (case compile_segment_regex seg of
        Inl e \<Rightarrow> Inl e
      | Inr r \<Rightarrow> (case compile_segments segs of Inl e \<Rightarrow> Inl e | Inr rs \<Rightarrow> Inr (r # rs)))"

text \<open>
  The body of the loop over the candidates: the sub-directories of one candidate whose
  names match, each with the captured value (\<open>captured\<close> holds the key \<open>num\<close> only).
\<close>

definition expand_candidate ::
  "filesystem \<Rightarrow> part list \<Rightarrow> string \<times> string option \<Rightarrow> (string \<times> string option) list" where
  "expand_candidate fs regex cand =
     (case cand of (current_path, captured) \<Rightarrow>
        if \<not> isdir fs current_path then []
        else (case listdir fs current_path of
                Inl e \<Rightarrow> []
              | Inr entries \<Rightarrow>
                  concat (map (\<lambda>name.
                    let full_path = path_join current_path name
                    in if \<not> isdir fs full_path then []
                       else (case match_parts regex name of
                               NoMatch \<Rightarrow> []
                             | Match num_value \<Rightarrow>
                                 [(full_path, if truthy num_value then num_value else captured)]))
                    entries)))"

fun expand_segments ::
  "filesystem \<Rightarrow> part list list \<Rightarrow> (string \<times> string option) list \<Rightarrow> (string \<times> string option) list" where
  "expand_segments fs [] candidates = candidates"
| "expand_segments fs (regex # regexes) candidates =
     (let next_candidates = concat (map (expand_candidate fs regex) candidates)
      in if next_candidates = [] then [] else expand_segments fs regexes next_candidates)"

definition collect_existing :: "(string \<times> string option) list \<Rightarrow> string set" where
  "collect_existing candidates =
     set (concat (map (\<lambda>(p, capture).
            (case normalize_duplicate_avid capture of
               None \<Rightarrow> []
             | Some normalized \<Rightarrow> if normalized \<noteq> [] then [normalized] else []))
          candidates))"

definition base_dir_of :: "string \<Rightarrow> string" where
  "base_dir_of pattern =
     (let base_literal = fst (split_output_pattern pattern)
      in normpath (if base_literal = [] then ''.'' else base_literal))"

definition get_existing_summary_avids :: "filesystem \<Rightarrow> string \<Rightarrow> py_error + string set" where
  "get_existing_summary_avids fs pattern =
     (if \<not> contains ''{num}'' pattern then Inr {}
      else
        let segments = snd (split_output_pattern pattern)
        in if segments = [] then Inr {}
           else if \<not> isdir fs (base_dir_of pattern) then Inr {}
           else (case compile_segments segments of
                   Inl e \<Rightarrow> Inl e
                 | Inr compiled_segments \<Rightarrow>
                     Inr (collect_existing
                            (expand_segments fs compiled_segments [(base_dir_of pattern, None)]))))"

text \<open>
  Two trees for the template \<open>media/{num}/video.mp4\<close>: in the first the two
  \<open>video.mp4\<close> are regular files, in the second they are directories.
\<close>

definition media_files :: filesystem where
  "media_files =
     \<lparr> fs_root = Dir True [(''media'', Dir True
          [(''ABC-123'', Dir True [(''video.mp4'', File 1000)]),
           (''ABC-123-C'', Dir True [(''video.mp4'', File 1000)])])],
       fs_cwd = [] \<rparr>"

definition media_dirs :: filesystem where
  "media_dirs =
     \<lparr> fs_root = Dir True [(''media'', Dir True
          [(''ABC-123'', Dir True [(''video.mp4'', Dir True [])]),
           (''ABC-123-C'', Dir True [(''video.mp4'', Dir True [])])])],
       fs_cwd = [] \<rparr>"

section \<open>The slice detector\<close>

text \<open>
  \<open>os.path.commonprefix\<close>: the smallest and the largest name in the order of strings,
  compared character by character.
\<close>

fun common_prefix2 :: "string \<Rightarrow> string \<Rightarrow> string" where
  "common_prefix2 [] s2 = []"
| "common_prefix2 (c # s1) [] = []"
| "common_prefix2 (c # s1) (d # s2) = (if c \<noteq> d then [] else c # common_prefix2 s1 s2)"

definition commonprefix :: "string list \<Rightarrow> string" where
  "commonprefix m =
     (case m of [] \<Rightarrow> [] | x # xs \<Rightarrow> common_prefix2 (fold min xs x) (fold max xs x))"

text \<open>
  Modelled from the spec: \<open>re_escape\<close> of \<open>javsp.lib\<close> is not among the sources. The
  spec has the pattern start with the escaped common prefix, so the prefix stands for
  itself, and such a pattern always compiles: the branch for \<open>re.error\<close> is never taken.
  The pattern is \<open>prefix\\s*([a-z\\d])\\s*\<close> under \<open>re.I\<close>: a character of the text
  matches a character of the prefix when both have the same lower case, and the class
  takes the letters \<open>a\<close> to \<open>z\<close> in either case and the digits \<open>0\<close> to \<open>9\<close>.
\<close>

fun match_literal_ci :: "string \<Rightarrow> string \<Rightarrow> string option" where
  "match_literal_ci [] s = Some s"
| "match_literal_ci (p # ps) [] = None"
| "match_literal_ci (p # ps) (c # cs) =
     (if lower_char p = lower_char c then match_literal_ci ps cs else None)"

definition is_slice_token :: "char \<Rightarrow> bool" where
  "is_slice_token c = (ascii_lower c \<or> ascii_upper c \<or> ascii_digit c)"

text \<open>
  One match of the pattern at the head of the text: the captured token and the text
  after the match. Both runs of white space are greedy; a shorter first run would leave
  white space where the token has to be.
\<close>

definition slice_match_at :: "string \<Rightarrow> string \<Rightarrow> (char \<times> string) option" where
  "slice_match_at pre s =
     (case match_literal_ci pre s of
        None \<Rightarrow> None
      | Some r \<Rightarrow>
          (case dropWhile py_isspace r of
             [] \<Rightarrow> None
           | t # r' \<Rightarrow> if is_slice_token t then Some (t, dropWhile py_isspace r') else None))"

lemma match_literal_ci_length:
  "match_literal_ci pre s = Some r \<Longrightarrow> length r \<le> length s"
  by (induction pre s rule: match_literal_ci.induct) (auto split: if_splits)

lemma slice_match_at_shorter:
  assumes "slice_match_at pre s = Some (t, rest)"
  shows "length rest < length s"
proof -
  from assms obtain r r' where r: "match_literal_ci pre s = Some r"
    and d: "dropWhile py_isspace r = t # r'" and rest: "rest = dropWhile py_isspace r'"
    by (auto simp: slice_match_at_def split: option.splits list.splits if_splits)
  have "length rest \<le> length r'"
    unfolding rest by (rule length_dropWhile_le)
  moreover have "length (t # r') \<le> length r"
    using length_dropWhile_le[of py_isspace r] d by simp
  moreover note match_literal_ci_length[OF r]
  ultimately show ?thesis by simp
qed

text \<open>
  \<open>pattern.sub(r'\\1', i)\<close>: every match, from left to right, is replaced by its token;
  a character at which nothing matches is kept.
\<close>

function slice_sub :: "string \<Rightarrow> string \<Rightarrow> string" where
  "slice_sub pre [] = []"
| "slice_sub pre (c # cs) =
     (case slice_match_at pre (c # cs) of
        Some (t, rest) \<Rightarrow> t # slice_sub pre rest
      | None \<Rightarrow> c # slice_sub pre cs)"
  by pat_completeness auto
termination
  by (relation "measure (\<lambda>(pre, s). length s)") (auto dest: slice_match_at_shorter)

text \<open>The lists built from the files of one group, all in the order of \<open>files\<close>.\<close>

definition remaining_of :: "string list \<Rightarrow> string list" where
  "remaining_of files =
     (let basenames = map basename files;
          pre = commonprefix basenames
      in map (\<lambda>i. py_lower (slice_sub pre i)) basenames)"

definition postfixes_of :: "string list \<Rightarrow> string list" where
  "postfixes_of files = map (drop 1) (remaining_of files)"

definition slices_of :: "string list \<Rightarrow> char list" where
  "slices_of files = map hd (remaining_of files)"

text \<open>\<open>xs.index(x)\<close> for an element that occurs.\<close>

fun index_of :: "'a list \<Rightarrow> 'a \<Rightarrow> nat" where
  "index_of [] x = 0"
| "index_of (y # ys) x = (if y = x then 0 else Suc (index_of ys x))"

text \<open>\<open>mapped_files\<close>: the files in the order of their sorted slices.\<close>

definition mapped_files_of :: "string list \<Rightarrow> string list" where
  "mapped_files_of files =
     (let slices = slices_of files
      in map (\<lambda>i. files ! index_of slices i) (sort slices))"

text \<open>
  What the body of the loop over the groups does with one group: a single file is passed
  over; files from several directories, files that do not differ by one token only, and
  tokens that are not a run from \<open>0\<close>, \<open>1\<close> or \<open>a\<close> are duplicates; otherwise the
  files come back in the order of their tokens. Taking the first character of an empty
  name raises \<open>IndexError\<close>.
\<close>

datatype outcome = Single | CrossDir | NotSlices | BadRun | Sliced "string list"

definition resolve_group :: "string list \<Rightarrow> py_error + outcome" where
  "resolve_group files =
     (if length files = 1 then Inr Single
      else if 1 < card (set (map dirname files)) then Inr CrossDir
      else
        let remaining = remaining_of files;
            postfixes = postfixes_of files;
            slices = slices_of files
        in if [] \<in> set remaining then Inl IndexError
           else if card (set postfixes) \<noteq> 1 \<or> length slices \<noteq> card (set slices)
           then Inr NotSlices
           else
             let sorted_slices = sort slices;
                 first = hd sorted_slices;
                 lst = last sorted_slices
             in if first \<notin> {CHR ''0'', CHR ''1'', CHR ''a''}
                   \<or> int (of_char lst) \<noteq> int (of_char first) + int (length sorted_slices) - 1
                then Inr BadRun
                else Inr (Sliced (mapped_files_of files)))"

text \<open>
  The dictionaries keep the order in which their keys were added; they are lists of
  pairs with distinct keys.
\<close>

type_synonym 'v dict = "(string \<times> 'v) list"

definition dict_keys :: "'v dict \<Rightarrow> string list" where
  "dict_keys d = map fst d"

text \<open>\<open>d[k].append(v)\<close> for a key that is there, \<open>d[k] = [v]\<close> for a new one.\<close>

fun dict_append :: "string \<Rightarrow> 'a \<Rightarrow> 'a list dict \<Rightarrow> 'a list dict" where
  "dict_append k v [] = [(k, [v])]"
| "dict_append k v ((k', vs) # d) =
     (if k' = k then (k', vs @ [v]) # d else (k', vs) # dict_append k v d)"

text \<open>\<open>d[k] = v\<close>.\<close>

fun dict_set :: "string \<Rightarrow> 'v \<Rightarrow> 'v dict \<Rightarrow> 'v dict" where
  "dict_set k v [] = [(k, v)]"
| "dict_set k v ((k', v') # d) =
     (if k' = k then (k', v) # d else (k', v') # dict_set k v d)"

text \<open>\<open>del d[k]\<close>.\<close>

definition dict_del :: "string \<Rightarrow> 'v dict \<Rightarrow> 'v dict" where
  "dict_del k d = filter (\<lambda>(k', v). k' \<noteq> k) d"

text \<open>
  The loop over \<open>dic.copy().items()\<close>: the groups of the copy one after the other, with
  \<open>dic\<close> and \<open>non_slice_dup\<close> as they stand.
\<close>

fun resolve_groups ::
  "string list dict \<Rightarrow> string list dict \<times> string list dict
     \<Rightarrow> py_error + (string list dict \<times> string list dict)" where
  "resolve_groups [] (dic, non_slice_dup) = Inr (dic, non_slice_dup)"
| "resolve_groups ((avid, files) # items) (dic, non_slice_dup) =
     (case resolve_group files of
        Inl e \<Rightarrow> Inl e
      | Inr Single \<Rightarrow> resolve_groups items (dic, non_slice_dup)
      | Inr (Sliced mapped_files) \<Rightarrow>
          resolve_groups items (dict_set avid mapped_files dic, non_slice_dup)
      | Inr _ \<Rightarrow>
          resolve_groups items (dict_del avid dic, dict_set avid files non_slice_dup))"

text \<open>
  The entry of \<open>slices\<close> for one file, for the common prefix \<open>pre\<close> of its group: the
  first character of the substituted, lower-cased name.
\<close>

definition slice_token :: "string \<Rightarrow> string \<Rightarrow> char" where
  "slice_token pre f = hd (py_lower (slice_sub pre (basename f)))"

text \<open>
  The checks of the loop body on the lists \<open>postfixes\<close> and \<open>slices\<close>, put as one
  predicate: all entries of \<open>postfixes\<close> are equal, no entry of \<open>slices\<close> occurs twice,
  and the sorted entries of \<open>slices\<close> start at \<open>0\<close>, \<open>1\<close> or \<open>a\<close> with code
  points \<open>first\<close>, \<open>first + 1\<close> and so on without a gap. An entry of \<open>slices\<close> is
  the first character of a substituted name, whether the pattern captured it or not.
\<close>

definition run_from_start :: "char list \<Rightarrow> bool" where
  "run_from_start ss =
     (ss \<noteq> [] \<and> hd ss \<in> {CHR ''0'', CHR ''1'', CHR ''a''} \<and>
      map of_char ss = [of_char (hd ss) ..< of_char (hd ss) + length ss])"

definition checks_pass :: "string list \<Rightarrow> bool" where
  "checks_pass files =
     ((\<forall>p \<in> set (postfixes_of files). p = hd (postfixes_of files)) \<and>
      distinct (slices_of files) \<and>
      run_from_start (sort (slices_of files)))"

text \<open>
  What the loop leaves in \<open>dic\<close> and in \<open>non_slice_dup\<close> under the key of a group,
  from the outcome for the group and what was there before.
\<close>

fun dic_after :: "py_error + outcome \<Rightarrow> string list option \<Rightarrow> string list option" where
  "dic_after (Inr Single) old = old"
| "dic_after (Inr (Sliced m)) old = Some m"
| "dic_after r old = None"

fun dup_after :: "py_error + outcome \<Rightarrow> string list \<Rightarrow> string list option \<Rightarrow> string list option" where
  "dup_after (Inr Single) fls old = old"
| "dup_after (Inr (Sliced m)) fls old = old"
| "dup_after r fls old = Some fls"

section \<open>The directory scanner\<close>

text \<open>
  What \<open>scan_movies\<close> takes from outside the two source files is a parameter: the
  options of \<open>Cfg().scanner\<close> (the compiled pattern of ignored folder names as the
  predicate \<open>pattern.match(name)\<close>) and the functions \<open>get_id\<close>, \<open>get_cid\<close> and
  \<open>guess_av_type\<close> of \<open>javsp.avid\<close>, which give an identifier or nothing for a path,
  and a source tag for an identifier.
\<close>

record config =
  ignored_folder :: "string \<Rightarrow> bool"
  skip_nfo_dir :: bool
  filename_extensions :: "string list"
  minimum_size :: nat
  get_id :: "string \<Rightarrow> string option"
  get_cid :: "string \<Rightarrow> string option"
  guess_av_type :: "string \<Rightarrow> string"

text \<open>
  The state of the walk: \<open>dic\<close>, \<open>small_videos\<close> and the items this call appends to
  the global \<open>failed_items\<close>, each item with its list of files.
\<close>

record walk_state =
  st_dic :: "string list dict"
  st_small :: "string list dict"
  st_failed :: "string list list"

definition empty_state :: walk_state where
  "empty_state = \<lparr> st_dic = [], st_small = [], st_failed = [] \<rparr>"

text \<open>\<open>avid = cid if cid else dvdid\<close>.\<close>

definition avid_of :: "config \<Rightarrow> string \<Rightarrow> string option" where
  "avid_of c p =
     (let dvdid = get_id c p; cid = get_cid c p
      in if truthy cid then cid else dvdid)"

text \<open>The body of the loop over \<open>filenames\<close>, for one file and its size.\<close>

definition visit_file :: "config \<Rightarrow> string \<Rightarrow> string \<times> nat \<Rightarrow> walk_state \<Rightarrow> walk_state" where
  "visit_file c dirpath entry st =
     (case entry of (file, filesize) \<Rightarrow>
        let ext = py_lower (splitext_ext file)
        in if ext \<notin> set (filename_extensions c) then st
           else
             let fullpath = path_join dirpath file
             in if filesize < minimum_size c
                then st\<lparr>st_small := dict_append file fullpath (st_small st)\<rparr>
                else
                  let avid = avid_of c fullpath
                  in if truthy avid
                     then st\<lparr>st_dic := dict_append (the avid) fullpath (st_dic st)\<rparr>
                     else st\<lparr>st_failed := st_failed st @ [[fullpath]]\<rparr>)"

text \<open>\<open>xs.remove(x)\<close> raises \<open>ValueError\<close> when \<open>x\<close> is not in the list.\<close>

definition py_remove :: "string \<Rightarrow> string list \<Rightarrow> py_error + string list" where
  "py_remove x xs = (if x \<in> set xs then Inr (remove1 x xs) else Inl ValueError)"

text \<open>\<open>os.listdir\<close> of the entry \<open>name\<close> of the directory being visited.\<close>

definition listdir_entry :: "(string \<times> node) list \<Rightarrow> string \<Rightarrow> py_error + string list" where
  "listdir_entry es name =
     (case map_of es name of
        Some (Dir True sub) \<Rightarrow> Inr (map fst sub)
      | _ \<Rightarrow> Inl OSError)"

text \<open>
  The loop over \<open>dirnames.copy()\<close>: the names still to look at, and \<open>dirnames\<close> as it
  stands. The two tests of one name are independent of each other, as in the source.
\<close>

fun prune_dirs ::
  "config \<Rightarrow> (string \<times> node) list \<Rightarrow> string list \<Rightarrow> string list \<Rightarrow> py_error + string list" where
  "prune_dirs c es [] dirnames = Inr dirnames"
| "prune_dirs c es (name # names) dirnames =
     (case (if ignored_folder c name then py_remove name dirnames else Inr dirnames) of
        Inl e \<Rightarrow> Inl e
      | Inr dirnames1 \<Rightarrow>
          if skip_nfo_dir c then
            (case listdir_entry es name of
               Inl e \<Rightarrow> Inl e
             | Inr listed \<Rightarrow>
                 if \<exists>file \<in> set listed. endswith (py_lower file) ''.nfo''
                 then (case py_remove name dirnames1 of
                         Inl e \<Rightarrow> Inl e
                       | Inr dirnames2 \<Rightarrow> prune_dirs c es names dirnames2)
                 else prune_dirs c es names dirnames1)
          else prune_dirs c es names dirnames1)"

definition dir_names :: "(string \<times> node) list \<Rightarrow> string list" where
  "dir_names es = map fst (filter (\<lambda>(name, n). is_dir_node n) es)"

fun file_size :: "node \<Rightarrow> nat" where
  "file_size (File sz) = sz"
| "file_size (Dir r es) = 0"

definition file_entries :: "(string \<times> node) list \<Rightarrow> (string \<times> nat) list" where
  "file_entries es =
     map (\<lambda>(name, n). (name, file_size n)) (filter (\<lambda>(name, n). \<not> is_dir_node n) es)"

lemma map_of_size:
  "map_of es name = Some n \<Longrightarrow> size n < Suc (size_list (size_prod (\<lambda>x. 0) size) es)"
  by (induction es) (auto split: if_splits)

text \<open>
  \<open>os.walk(top)\<close> with the body of the loop run at each directory it yields. A top that
  is no directory, or one that cannot be listed, yields nothing: \<open>os.walk\<close> ignores the
  error of \<open>scandir\<close>. At a directory the body first prunes \<open>dirnames\<close>, then visits
  the files; the walk then goes down into each name left in \<open>dirnames\<close>.
\<close>

function walk :: "config \<Rightarrow> string \<Rightarrow> node \<Rightarrow> walk_state \<Rightarrow> py_error + walk_state"
  and walk_dirs ::
    "config \<Rightarrow> string \<Rightarrow> (string \<times> node) list \<Rightarrow> string list \<Rightarrow> walk_state \<Rightarrow> py_error + walk_state"
  where
  "walk c dirpath (File sz) st = Inr st"
| "walk c dirpath (Dir readable es) st =
     (if \<not> readable then Inr st
      else (case prune_dirs c es (dir_names es) (dir_names es) of
              Inl e \<Rightarrow> Inl e
            | Inr dirnames \<Rightarrow>
                walk_dirs c dirpath es dirnames (fold (visit_file c dirpath) (file_entries es) st)))"
| "walk_dirs c dirpath es [] st = Inr st"
| "walk_dirs c dirpath es (name # dirnames) st =
     (case map_of es name of
        None \<Rightarrow> walk_dirs c dirpath es dirnames st
      | Some n \<Rightarrow>
          (case walk c (path_join dirpath name) n st of
             Inl e \<Rightarrow> Inl e
           | Inr st' \<Rightarrow> walk_dirs c dirpath es dirnames st'))"
  by pat_completeness auto
termination
  by (relation "measures
        [\<lambda>x. case x of
               Inl (c, dirpath, n, st) \<Rightarrow> 2 * size n
             | Inr (c, dirpath, es, dirnames, st) \<Rightarrow>
                 Suc (2 * size_list (size_prod (\<lambda>x. 0) size) es),
         \<lambda>x. case x of
               Inl (c, dirpath, n, st) \<Rightarrow> 0
             | Inr (c, dirpath, es, dirnames, st) \<Rightarrow> length dirnames]")
     (auto dest: map_of_size)

text \<open>
  A tree as a file system has it: the names in a directory are distinct and not empty,
  and no name holds a separator.
\<close>

fun wf_node :: "node \<Rightarrow> bool" where
  "wf_node (File sz) = True"
| "wf_node (Dir readable es) =
     (distinct (map fst es) \<and>
      (\<forall>e \<in> set es. fst e \<noteq> [] \<and> CHR ''/'' \<notin> set (fst e) \<and> wf_node (snd e)))"

definition wf_root :: "filesystem \<Rightarrow> string \<Rightarrow> bool" where
  "wf_root fs root = (case resolve fs root of None \<Rightarrow> True | Some n \<Rightarrow> wf_node n)"

text \<open>
  What holds of \<open>dic\<close> and \<open>small_videos\<close> throughout the walk of such a tree: the
  keys are distinct, no list of files is empty, every file has a name, and the small
  videos are kept under their file name.
\<close>

definition good_dic :: "string list dict \<Rightarrow> bool" where
  "good_dic d =
     (distinct (map fst d) \<and>
      (\<forall>(k, fls) \<in> set d. fls \<noteq> [] \<and> (\<forall>f \<in> set fls. basename f \<noteq> [])))"

definition good_small :: "string list dict \<Rightarrow> bool" where
  "good_small d =
     (distinct (map fst d) \<and>
      (\<forall>(k, fls) \<in> set d. fls \<noteq> [] \<and> k \<noteq> [] \<and> (\<forall>f \<in> set fls. basename f = k)))"

definition good_state :: "walk_state \<Rightarrow> bool" where
  "good_state st = (good_dic (st_dic st) \<and> good_small (st_small st))"

definition walk_root :: "config \<Rightarrow> filesystem \<Rightarrow> string \<Rightarrow> py_error + walk_state" where
  "walk_root c fs root =
     (case resolve fs root of
        None \<Rightarrow> Inr empty_state
      | Some n \<Rightarrow> walk c root n empty_state)"

text \<open>\<open>d[k].extend(vs)\<close> and \<open>d.pop(k)\<close>, both for a key of \<open>d\<close>.\<close>

definition dict_extend :: "string \<Rightarrow> 'a list \<Rightarrow> 'a list dict \<Rightarrow> 'a list dict" where
  "dict_extend k vs d = map (\<lambda>(k', v). if k' = k then (k', v @ vs) else (k', v)) d"

definition dict_get :: "'a list dict \<Rightarrow> string \<Rightarrow> 'a list" where
  "dict_get d k = (case map_of d k of Some v \<Rightarrow> v | None \<Rightarrow> [])"

definition in_dict :: "string option \<Rightarrow> 'v dict \<Rightarrow> bool" where
  "in_dict avid d = (case avid of None \<Rightarrow> False | Some a \<Rightarrow> a \<in> set (dict_keys d))"

text \<open>
  The loop over \<open>list(small_videos.keys())\<close>, with \<open>dic\<close>, \<open>small_videos\<close> and
  \<open>has_avid\<close> as they stand. The identifier is taken from the file name alone.
\<close>

fun merge_small ::
  "config \<Rightarrow> string list \<Rightarrow> string list dict \<times> string list dict \<times> string dict
     \<Rightarrow> string list dict \<times> string list dict \<times> string dict" where
  "merge_small c [] s = s"
| "merge_small c (name # names) (dic, small_videos, has_avid) =
     (let avid = avid_of c name
      in if in_dict avid dic
         then merge_small c names
                (dict_extend (the avid) (dict_get small_videos name) dic,
                 dict_del name small_videos, has_avid)
         else if truthy avid
         then merge_small c names (dic, small_videos, dict_set name (the avid) has_avid)
         else merge_small c names (dic, small_videos, has_avid))"

text \<open>
  \<open>skipped_files\<close>: the small videos left, the names in order and the paths of each
  name in order.
\<close>

definition skipped_files_of :: "string list dict \<Rightarrow> string list" where
  "skipped_files_of small_videos = concat (map (\<lambda>(k, v). sort v) (sort_key fst small_videos))"

text \<open>
  \<open>os.path.relpath(path, start)\<close> for a path that is not empty: both are made absolute
  from the current directory, and the common leading components are dropped.
\<close>

definition abspath :: "filesystem \<Rightarrow> string \<Rightarrow> string" where
  "abspath fs p = normpath (path_join (''/'' @ join_with ''/'' (fs_cwd fs)) p)"

fun common_comps :: "string list \<Rightarrow> string list \<Rightarrow> nat" where
  "common_comps (x # xs) (y # ys) = (if x = y then Suc (common_comps xs ys) else 0)"
| "common_comps xs ys = 0"

definition relpath :: "filesystem \<Rightarrow> string \<Rightarrow> string \<Rightarrow> string" where
  "relpath fs path start =
     (let start_list = filter (\<lambda>x. x \<noteq> []) (split_char CHR ''/'' (abspath fs start));
          path_list = filter (\<lambda>x. x \<noteq> []) (split_char CHR ''/'' (abspath fs path));
          i = common_comps start_list path_list;
          rel_list = replicate (length start_list - i) ''..'' @ drop i path_list
      in case rel_list of [] \<Rightarrow> ''.'' | x # xs \<Rightarrow> fold (\<lambda>b a. path_join a b) xs x)"

text \<open>The text \<open>msg\<close> built from \<open>non_slice_dup\<close>; it is logged when it is not empty.\<close>

definition dup_lines :: "filesystem \<Rightarrow> string \<Rightarrow> string list \<Rightarrow> string" where
  "dup_lines fs root fls = concat (map (\<lambda>f. ''  '' @ relpath fs f root @ [CHR 0x0A]) fls)"

definition build_msg :: "filesystem \<Rightarrow> string \<Rightarrow> string list dict \<Rightarrow> string" where
  "build_msg fs root non_slice_dup =
     concat (map (\<lambda>(avid, fls). avid @ '': '' @ [CHR 0x0A] @ dup_lines fs root fls) non_slice_dup)"

text \<open>
  Modelled from the spec: the class \<open>Movie\<close> of \<open>javsp.datatype\<close> is not among the
  sources. A record of the scan carries its identifier, as \<open>dvdid\<close> or as \<open>cid\<close>, the
  ordered files, the source tag and, for the tag \<open>cid\<close>, the identifier that
  \<open>get_id\<close> finds for the first file.
\<close>

record movie =
  mov_dvdid :: "string option"
  mov_cid :: "string option"
  mov_files :: "string list"
  mov_data_src :: string

text \<open>The identifier a record was made for.\<close>

definition movie_key :: "movie \<Rightarrow> string option" where
  "movie_key m = (if mov_data_src m = ''cid'' then mov_cid m else mov_dvdid m)"

definition make_movie :: "config \<Rightarrow> string \<times> string list \<Rightarrow> py_error + movie" where
  "make_movie c item =
     (case item of (avid, fls) \<Rightarrow>
        let src = guess_av_type c avid
        in if src \<noteq> ''cid''
           then Inr \<lparr> mov_dvdid = Some avid, mov_cid = None, mov_files = fls, mov_data_src = src \<rparr>
           else (case fls of
                   [] \<Rightarrow> Inl IndexError
                 | f # rest \<Rightarrow>
                     Inr \<lparr> mov_dvdid = get_id c f, mov_cid = Some avid,
                           mov_files = fls, mov_data_src = src \<rparr>))"

fun make_movies :: "config \<Rightarrow> string list dict \<Rightarrow> py_error + movie list" where
  "make_movies c [] = Inr []"
| "make_movies c (item # items) =
     (case make_movie c item of
        Inl e \<Rightarrow> Inl e
      | Inr mov \<Rightarrow> (case make_movies c items of Inl e \<Rightarrow> Inl e | Inr movs \<Rightarrow> Inr (mov # movs)))"

text \<open>
  What a scan gives back: the list it returns, the items added to \<open>failed_items\<close>, the
  files counted as skipped, and the text of the error message about duplicates.
\<close>

record scan_result =
  res_movies :: "movie list"
  res_failed :: "string list list"
  res_skipped :: "string list"
  res_msg :: string

text \<open>The groups after the walk and the merge of the small videos, and what is left over.\<close>

definition collect_groups ::
  "config \<Rightarrow> filesystem \<Rightarrow> string \<Rightarrow> py_error + (string list dict \<times> string list dict \<times> walk_state)" where
  "collect_groups c fs root =
     (case walk_root c fs root of
        Inl e \<Rightarrow> Inl e
      | Inr st \<Rightarrow>
          (case merge_small c (dict_keys (st_small st)) (st_dic st, st_small st, []) of
             (dic, small_videos, has_avid) \<Rightarrow> Inr (dic, small_videos, st)))"

definition scan_movies :: "config \<Rightarrow> filesystem \<Rightarrow> string \<Rightarrow> py_error + scan_result" where
  "scan_movies c fs root =
     (case collect_groups c fs root of
        Inl e \<Rightarrow> Inl e
      | Inr (dic, small_videos, st) \<Rightarrow>
          (case resolve_groups dic (dic, []) of
             Inl e \<Rightarrow> Inl e
           | Inr (dic', non_slice_dup) \<Rightarrow>
               (case make_movies c dic' of
                  Inl e \<Rightarrow> Inl e
                | Inr movs \<Rightarrow>
                    Inr \<lparr> res_movies = movs, res_failed = st_failed st,
                          res_skipped = skipped_files_of small_videos,
                          res_msg = build_msg fs root non_slice_dup \<rparr>)))"

section \<open>Example configurations and trees\<close>

text \<open>
  A configuration that ignores folders whose name starts with a dot, takes \<open>.mp4\<close> and
  \<open>.mkv\<close> files of at least 100 bytes, and finds the identifier \<open>ABC-123\<close> or
  \<open>XYZ-9\<close> in a path that contains it.
\<close>

definition demo_config :: config where
  "demo_config =
     \<lparr> ignored_folder = (\<lambda>name. prefix ''.'' name),
       skip_nfo_dir = False,
       filename_extensions = [''.mp4'', ''.mkv''],
       minimum_size = 100,
       get_id = (\<lambda>p. if contains ''ABC-123'' p then Some ''ABC-123''
                      else if contains ''XYZ-9'' p then Some ''XYZ-9'' else None),
       get_cid = (\<lambda>p. None),
       guess_av_type = (\<lambda>avid. ''normal'') \<rparr>"

definition nfo_config :: config where
  "nfo_config = demo_config\<lparr>skip_nfo_dir := True\<rparr>"

definition tree_fs :: "(string \<times> node) list \<Rightarrow> filesystem" where
  "tree_fs es = \<lparr> fs_root = Dir True [(''root'', Dir True es)], fs_cwd = [] \<rparr>"

text \<open>A hidden folder that holds an \<open>.nfo\<close> file, next to a folder with a video.\<close>

definition hidden_nfo_fs :: filesystem where
  "hidden_nfo_fs =
     tree_fs [(''.hid'', Dir True [(''m.nfo'', File 1)]),
              (''A'', Dir True [(''ABC-123.mp4'', File 500)])]"

text \<open>A folder that cannot be listed, next to a folder with a video.\<close>

definition unreadable_fs :: filesystem where
  "unreadable_fs =
     tree_fs [(''locked'', Dir False []),
              (''A'', Dir True [(''ABC-123.mp4'', File 500)])]"

text \<open>
  The folder \<open>ABC-123\<close> with 27 videos named by one character each: \<open>a\<close> to \<open>z\<close>
  and the opening brace, the character that follows \<open>z\<close>.
\<close>

definition letters27 :: string where
  "letters27 = ''abcdefghijklmnopqrstuvwxyz{''"

definition letters_fs :: filesystem where
  "letters_fs = tree_fs [(''ABC-123'', Dir True (map (\<lambda>ch. (ch # ''.mp4'', File 500)) letters27))]"

text \<open>
  The folder \<open>ABC-123\<close> with ten videos named by one character each: \<open>1\<close> to \<open>9\<close>
  and the colon, the character that follows \<open>9\<close>.
\<close>

definition digits10 :: string where
  "digits10 = ''123456789:''"

definition digits_fs :: filesystem where
  "digits_fs = tree_fs [(''ABC-123'', Dir True (map (\<lambda>ch. (ch # ''.mp4'', File 500)) digits10))]"

text \<open>Two parts of one title whose extensions differ in case.\<close>

definition case_fs :: filesystem where
  "case_fs =
     tree_fs [(''B'', Dir True [(''XYZ-9a.MP4'', File 500), (''XYZ-9b.mp4'', File 500)])]"

text \<open>The same identifier in two folders.\<close>

definition two_folders_fs :: filesystem where
  "two_folders_fs =
     tree_fs [(''A'', Dir True [(''ABC-123.mp4'', File 500)]),
              (''B'', Dir True [(''ABC-123.mkv'', File 600)]),
              (''C'', Dir True [(''XYZ-9.mp4'', File 700)])]"

text \<open>Three parts of one title, listed out of order, the last one a small file.\<close>

definition parts_fs :: filesystem where
  "parts_fs =
     tree_fs [(''B'', Dir True [(''XYZ-9.b.mp4'', File 500), (''XYZ-9.c.mp4'', File 50),
                               (''XYZ-9.a.mp4'', File 500), (''trailer.mp4'', File 50)])]"

text \<open>
  The example of the specification: \<open>x.mp4\<close> in folder \<open>A\<close> and \<open>y.mp4\<close> in folder
  \<open>B\<close>, with an extractor that finds the same identifier in every path, and a third
  folder whose file is alone with its identifier.
\<close>

definition same_id_config :: config where
  "same_id_config =
     demo_config\<lparr>get_id := (\<lambda>p. if contains ''/C/'' p then Some ''XYZ-9'' else Some ''ABC-123'')\<rparr>"

definition xy_fs :: filesystem where
  "xy_fs =
     tree_fs [(''A'', Dir True [(''x.mp4'', File 500)]),
              (''B'', Dir True [(''y.mp4'', File 600)]),
              (''C'', Dir True [(''z.mp4'', File 700)])]"

text \<open>Two parts of one title with the part \<open>b\<close> missing.\<close>

definition gap_fs :: filesystem where
  "gap_fs =
     tree_fs [(''B'', Dir True [(''XYZ-9.a.mp4'', File 500), (''XYZ-9.c.mp4'', File 500)])]"

section \<open>Properties of the normalizer\<close>

lemma upper_char_idem: "upper_char (upper_char c) = upper_char c"
  by (auto simp: upper_char_def ascii_lower_def)

lemma py_upper_idem: "py_upper (py_upper s) = py_upper s"
  by (simp add: py_upper_def upper_char_idem)

lemma isspace_upper_char: "py_isspace (upper_char c) = py_isspace c"
  by (auto simp: upper_char_def ascii_lower_def py_isspace_def)

lemma py_upper_strip: "py_upper (py_strip s) = py_strip (py_upper s)"
  by (simp add: py_upper_def py_strip_def py_rstrip_def py_lstrip_def dropWhile_map rev_map comp_def isspace_upper_char)

lemma strip_suffixes_step:
  "strip_suffixes avid =
     (if endswith avid ''-UC'' then strip_suffixes (take (length avid - 3) avid)
      else if endswith avid ''-C'' then strip_suffixes (take (length avid - 2) avid)
      else avid)"
  by (subst strip_suffixes.simps) (simp add: first_suffix_def DUPLICATE_SUFFIXES_def numeral_3_eq_3 numeral_2_eq_2)

lemma first_suffix_endswith:
  "first_suffix avid = Some suf \<Longrightarrow> suf \<in> set DUPLICATE_SUFFIXES \<and> avid = take (length avid - length suf) avid @ suf"
  unfolding first_suffix_def 
  by (auto simp: find_Some_iff endswith_def nth_mem) (metis append_take_drop_id)+

lemma strip_suffixes_decomp:
  "\<exists>ws. avid = strip_suffixes avid @ concat ws \<and> set ws \<subseteq> set DUPLICATE_SUFFIXES"
proof (induction avid rule: strip_suffixes.induct)
  case (1 avid)
  show ?case
  proof (cases "first_suffix avid")
    case None
    then have "strip_suffixes avid = avid" by (subst strip_suffixes.simps) simp
    then have "avid = strip_suffixes avid @ concat []" by simp
    then show ?thesis by (metis empty_set empty_subsetI)
  next
    case (Some suf)
    let ?t = "take (length avid - length suf) avid"
    from Some have eq: "strip_suffixes avid = strip_suffixes ?t"
      by (subst strip_suffixes.simps) simp
    from first_suffix_endswith[OF Some] have mem: "suf \<in> set DUPLICATE_SUFFIXES" and dec: "avid = ?t @ suf"
      by simp_all
    from "1.IH"[OF Some] obtain ws where ws: "?t = strip_suffixes ?t @ concat ws" "set ws \<subseteq> set DUPLICATE_SUFFIXES"
      by blast
    have "avid = strip_suffixes avid @ concat (ws @ [suf])"
      using dec ws(1) eq by (metis append.assoc append_Nil2 concat.simps(1) concat.simps(2) concat_append) 
    moreover have "set (ws @ [suf]) \<subseteq> set DUPLICATE_SUFFIXES" using ws(2) mem by simp
    ultimately show ?thesis by blast
  qed
qed

lemma strip_suffixes_fixed: "first_suffix (strip_suffixes avid) = None"
proof (induction avid rule: strip_suffixes.induct)
  case (1 avid)
  show ?case
  proof (cases "first_suffix avid")
    case None
    then show ?thesis by (subst strip_suffixes.simps) simp
  next
    case (Some suf)
    then show ?thesis using "1.IH"[OF Some] by (subst strip_suffixes.simps) simp
  qed
qed

lemma first_suffix_None: "first_suffix r = None \<longleftrightarrow> \<not> endswith r ''-UC'' \<and> \<not> endswith r ''-C''"
  by (simp add: first_suffix_def DUPLICATE_SUFFIXES_def)

lemma strip_suffixes_id: "first_suffix r = None \<Longrightarrow> strip_suffixes r = r"
  by (subst strip_suffixes.simps) simp

lemma strip_suffixes_prefix: "prefix (strip_suffixes avid) avid"
  using strip_suffixes_decomp[of avid] by (metis prefixI)

lemma py_upper_take: "py_upper (take n (py_upper s)) = take n (py_upper s)"
  by (simp add: py_upper_def take_map upper_char_idem)

lemma strip_suffixes_upper: "py_upper (strip_suffixes (py_upper s)) = strip_suffixes (py_upper s)"
proof -
  from strip_suffixes_prefix[of "py_upper s"] obtain n where "strip_suffixes (py_upper s) = take n (py_upper s)"
    by (metis prefix_def append_eq_conv_conj)
  then show ?thesis by (simp add: py_upper_take)
qed

lemma length_py_strip_le: "length (py_strip s) \<le> length s"
  unfolding py_strip_def py_rstrip_def py_lstrip_def
  by (metis length_dropWhile_le length_rev order_trans)

lemma dropWhile_same_length: "length (dropWhile P xs) = length xs \<Longrightarrow> dropWhile P xs = xs"
  by (metis dropWhile_eq_drop drop_eq_Nil2 append_take_drop_id length_drop diff_diff_cancel length_0_conv length_dropWhile_le self_append_conv2 takeWhile_dropWhile_id diff_self_eq_0 drop_0 drop_all le_refl length_append add_diff_cancel_right')

lemma py_strip_same_length:
  assumes "length (py_strip s) = length s"
  shows "py_strip s = s"
proof -
  have "length (py_strip s) \<le> length (dropWhile py_isspace s)"
    unfolding py_strip_def py_rstrip_def py_lstrip_def
    by (metis length_dropWhile_le length_rev)
  with assms have "length (dropWhile py_isspace s) = length s"
    using length_dropWhile_le[of py_isspace s] by linarith
  then have l: "dropWhile py_isspace s = s" by (rule dropWhile_same_length)
  with assms have "length (dropWhile py_isspace (rev s)) = length (rev s)"
    by (simp add: py_strip_def py_rstrip_def py_lstrip_def)
  then have "dropWhile py_isspace (rev s) = rev s" by (rule dropWhile_same_length)
  with l show ?thesis by (simp add: py_strip_def py_rstrip_def py_lstrip_def)
qed

text \<open>
  Trimming in terms of the string itself: white space, then the trimmed string, then white
  space, and the trimmed string has no white space at either end.
\<close>

lemma py_rstrip_split:
  "\<exists>t. u = py_rstrip u @ t \<and> (\<forall>c\<in>set t. py_isspace c) \<and>
       (py_rstrip u = [] \<or> \<not> py_isspace (last (py_rstrip u)))"
proof -
  let ?d = "dropWhile py_isspace (rev u)"
  let ?t = "rev (takeWhile py_isspace (rev u))"
  have "rev (takeWhile py_isspace (rev u) @ ?d) = u"
    by (simp only: takeWhile_dropWhile_id rev_rev_ident)
  then have "rev ?d @ ?t = u" by (simp only: rev_append)
  then have a: "u = py_rstrip u @ ?t" by (simp only: py_rstrip_def)
  have b: "\<forall>c\<in>set ?t. py_isspace c" by (auto dest: set_takeWhileD)
  have c: "py_rstrip u = [] \<or> \<not> py_isspace (last (py_rstrip u))"
  proof (cases "?d = []")
    case True
    then show ?thesis by (simp add: py_rstrip_def)
  next
    case False
    then have "\<not> py_isspace (hd ?d)" by (rule hd_dropWhile)
    with False show ?thesis by (simp add: py_rstrip_def last_rev)
  qed
  from a b c show ?thesis by blast
qed

lemma py_strip_split:
  "\<exists>l t. s = l @ py_strip s @ t \<and> (\<forall>c\<in>set l. py_isspace c) \<and> (\<forall>c\<in>set t. py_isspace c) \<and>
         (py_strip s = [] \<or> (\<not> py_isspace (hd (py_strip s)) \<and> \<not> py_isspace (last (py_strip s))))"
proof -
  define l where "l = takeWhile py_isspace s"
  define u where "u = dropWhile py_isspace s"
  define m where "m = py_rstrip u"
  from py_rstrip_split[of u] obtain t where
    u: "u = m @ t" and t: "\<forall>c\<in>set t. py_isspace c"
    and e: "m = [] \<or> \<not> py_isspace (last m)" unfolding m_def by blast
  have ms: "py_strip s = m" by (simp add: py_strip_def py_lstrip_def m_def u_def)
  have "s = l @ u" by (simp add: l_def u_def)
  then have a: "s = l @ m @ t" by (simp only: u)
  have b: "\<forall>c\<in>set l. py_isspace c" by (auto simp: l_def dest: set_takeWhileD)
  have c: "m = [] \<or> (\<not> py_isspace (hd m) \<and> \<not> py_isspace (last m))"
  proof (cases "m = []")
    case True
    then show ?thesis by simp
  next
    case False
    then have "u \<noteq> []" by (simp add: u)
    then have "\<not> py_isspace (hd u)" unfolding u_def by (rule hd_dropWhile)
    moreover have "hd u = hd m" using False by (simp add: u)
    ultimately show ?thesis using e False by simp
  qed
  from a b t c show ?thesis unfolding ms by blast
qed

lemma py_strip_fixed_iff:
  assumes "r \<noteq> []"
  shows "py_strip r = r \<longleftrightarrow> \<not> py_isspace (hd r) \<and> \<not> py_isspace (last r)"
proof
  assume e: "py_strip r = r"
  from py_strip_split[of r]
  have "py_strip r = [] \<or> (\<not> py_isspace (hd (py_strip r)) \<and> \<not> py_isspace (last (py_strip r)))"
    by blast
  then have "r = [] \<or> (\<not> py_isspace (hd r) \<and> \<not> py_isspace (last r))"
    by (simp only: e)
  with assms show "\<not> py_isspace (hd r) \<and> \<not> py_isspace (last r)" by simp
next
  assume a: "\<not> py_isspace (hd r) \<and> \<not> py_isspace (last r)"
  from assms a have l: "dropWhile py_isspace r = r" by (cases r) simp_all
  from assms have "rev r \<noteq> []" by simp
  moreover from assms a have "\<not> py_isspace (hd (rev r))" by (simp add: hd_rev)
  ultimately have "dropWhile py_isspace (rev r) = rev r" by (cases "rev r") simp_all
  with l show "py_strip r = r" by (simp add: py_strip_def py_lstrip_def py_rstrip_def)
qed

text \<open>
  Claim C6. The normalizer returns \<open>None\<close> for \<open>None\<close> and for the empty string. Any other
  string, of characters that have an upper case among the characters, is white space, a
  middle part with no white space at either end, and white space;
  the result is the upper-cased middle part without a run of the suffixes \<open>-UC\<close> and
  \<open>-C\<close> at its end, a string that ends with neither suffix. Trimming and upper-casing
  commute. One pass of the loop tries \<open>-UC\<close> first, then \<open>-C\<close>, and starts again after a
  removal. Both \<open>ABC-123-C-UC\<close> and \<open>ABC-123-UC-C\<close> become \<open>ABC-123\<close>; so does the
  lower-case text between a tab and a blank, and the letter 233 followed by \<open>-c\<close>
  becomes the letter 201, its upper case.
\<close>

theorem normalize_spec:
  "normalize_duplicate_avid None = None \<and>
   normalize_duplicate_avid (Some []) = None \<and>
   (s \<noteq> [] \<and> (\<forall>c\<in>set s. has_upper c) \<longrightarrow>
     (\<exists>l m t r ws. s = l @ m @ t \<and>
        (\<forall>c\<in>set l. py_isspace c) \<and> (\<forall>c\<in>set t. py_isspace c) \<and>
        (m = [] \<or> (\<not> py_isspace (hd m) \<and> \<not> py_isspace (last m))) \<and>
        map upper_char m = r @ concat ws \<and>
        set ws \<subseteq> {''-UC'', ''-C''} \<and>
        \<not> endswith r ''-UC'' \<and> \<not> endswith r ''-C'' \<and>
        normalize_duplicate_avid (Some s) = Some r)) \<and>
   py_upper (py_strip s) = py_strip (py_upper s) \<and>
   strip_suffixes t =
     (if endswith t ''-UC'' then strip_suffixes (take (length t - 3) t)
      else if endswith t ''-C'' then strip_suffixes (take (length t - 2) t)
      else t) \<and>
   normalize_duplicate_avid (Some ''ABC-123-C-UC'') = Some ''ABC-123'' \<and>
   normalize_duplicate_avid (Some ''ABC-123-UC-C'') = Some ''ABC-123'' \<and>
   normalize_duplicate_avid (Some (CHR 0x09 # ''abc-123-uc-c '')) = Some ''ABC-123'' \<and>
   normalize_duplicate_avid (Some [CHR 0xE9, CHR ''-'', CHR ''c'']) = Some [CHR 0xC9]"
proof -
  have a: "normalize_duplicate_avid None = None" "normalize_duplicate_avid (Some []) = None"
    by (simp_all add: normalize_duplicate_avid_def)
  have b: "s \<noteq> [] \<and> (\<forall>c\<in>set s. has_upper c) \<longrightarrow>
     (\<exists>l m t r ws. s = l @ m @ t \<and>
        (\<forall>c\<in>set l. py_isspace c) \<and> (\<forall>c\<in>set t. py_isspace c) \<and>
        (m = [] \<or> (\<not> py_isspace (hd m) \<and> \<not> py_isspace (last m))) \<and>
        map upper_char m = r @ concat ws \<and>
        set ws \<subseteq> {''-UC'', ''-C''} \<and>
        \<not> endswith r ''-UC'' \<and> \<not> endswith r ''-C'' \<and>
        normalize_duplicate_avid (Some s) = Some r)"
  proof
    assume "s \<noteq> [] \<and> (\<forall>c\<in>set s. has_upper c)"
    then have n: "normalize_duplicate_avid (Some s) = Some (strip_suffixes (py_upper (py_strip s)))"
      by (simp add: normalize_duplicate_avid_def)
    define m where "m = py_strip s"
    from py_strip_split[of s] obtain l t where
      s: "s = l @ m @ t" and l: "\<forall>c\<in>set l. py_isspace c" and t: "\<forall>c\<in>set t. py_isspace c"
      and e: "m = [] \<or> (\<not> py_isspace (hd m) \<and> \<not> py_isspace (last m))"
      unfolding m_def by blast
    define r where "r = strip_suffixes (py_upper m)"
    from strip_suffixes_decomp[of "py_upper m"] obtain ws where
      w: "map upper_char m = r @ concat ws" "set ws \<subseteq> {''-UC'', ''-C''}"
      by (auto simp: DUPLICATE_SUFFIXES_def py_upper_def r_def)
    have f: "\<not> endswith r ''-UC''" "\<not> endswith r ''-C''"
      using strip_suffixes_fixed[of "py_upper m"] by (simp_all add: first_suffix_None r_def)
    have n': "normalize_duplicate_avid (Some s) = Some r" using n by (simp only: r_def m_def)
    from s l t e w f n' show "\<exists>l m t r ws. s = l @ m @ t \<and>
        (\<forall>c\<in>set l. py_isspace c) \<and> (\<forall>c\<in>set t. py_isspace c) \<and>
        (m = [] \<or> (\<not> py_isspace (hd m) \<and> \<not> py_isspace (last m))) \<and>
        map upper_char m = r @ concat ws \<and>
        set ws \<subseteq> {''-UC'', ''-C''} \<and>
        \<not> endswith r ''-UC'' \<and> \<not> endswith r ''-C'' \<and>
        normalize_duplicate_avid (Some s) = Some r"
      by blast
  qed
  have c: "normalize_duplicate_avid (Some ''ABC-123-C-UC'') = Some ''ABC-123''"
    by code_simp
  have d: "normalize_duplicate_avid (Some ''ABC-123-UC-C'') = Some ''ABC-123''"
    by code_simp
  have e: "normalize_duplicate_avid (Some (CHR 0x09 # ''abc-123-uc-c '')) = Some ''ABC-123''"
    by code_simp
  have f: "normalize_duplicate_avid (Some [CHR 0xE9, CHR ''-'', CHR ''c'']) = Some [CHR 0xC9]"
    by code_simp
  show ?thesis
    by (intro conjI a b c d e f py_upper_strip strip_suffixes_step)
qed

theorem normalize_spec_witness:
  "'' abc-1-c '' \<noteq> [] \<and> list_all has_upper '' abc-1-c '' \<and>
   normalize_duplicate_avid (Some '' abc-1-c '') = Some ''ABC-1'' \<and>
   \<not> endswith ''ABC-1'' ''-UC'' \<and> \<not> endswith ''ABC-1'' ''-C''"
proof -
  define inp where "inp = '' abc-1-c ''"
  have v: "normalize_duplicate_avid (Some inp) = Some ''ABC-1''" unfolding inp_def by code_simp
  have h: "list_all has_upper inp" unfolding inp_def by code_simp
  have ne: "inp \<noteq> []" by (simp add: inp_def)
  have pre: "inp \<noteq> [] \<and> (\<forall>c\<in>set inp. has_upper c)"
    using ne h by (simp add: list_all_iff)
  note th = normalize_spec[of inp, THEN conjunct2, THEN conjunct2, THEN conjunct1, THEN mp, OF pre]
  from th obtain r where e: "\<not> endswith r ''-UC''" "\<not> endswith r ''-C''"
    and n: "normalize_duplicate_avid (Some inp) = Some r"
    by blast
  from n v have r: "r = ''ABC-1''" by simp
  from ne h v e have "inp \<noteq> [] \<and> list_all has_upper inp \<and>
   normalize_duplicate_avid (Some inp) = Some ''ABC-1'' \<and>
   \<not> endswith ''ABC-1'' ''-UC'' \<and> \<not> endswith ''ABC-1'' ''-C''" unfolding r by blast
  then show ?thesis unfolding inp_def .
qed

text \<open>
  Claim C7, as amended. For a string whose characters have an upper case among the
  characters, normalizing twice gives the same as normalizing once exactly when the first
  result is \<open>None\<close> or a non-empty string with no white space at either end.
\<close>

theorem normalize_idempotent_iff:
  assumes "case x of None \<Rightarrow> True | Some s \<Rightarrow> \<forall>c\<in>set s. has_upper c"
  shows "normalize_duplicate_avid (normalize_duplicate_avid x) = normalize_duplicate_avid x \<longleftrightarrow>
     (case normalize_duplicate_avid x of
        None \<Rightarrow> True
      | Some r \<Rightarrow> r \<noteq> [] \<and> \<not> py_isspace (hd r) \<and> \<not> py_isspace (last r))"
proof (cases "normalize_duplicate_avid x")
  case None
  then show ?thesis by (simp add: normalize_duplicate_avid_def)
next
  case (Some r)
  then obtain s where x: "x = Some s" "s \<noteq> []" and r: "r = strip_suffixes (py_upper (py_strip s))"
    by (cases x) (auto simp: normalize_duplicate_avid_def split: if_splits)
  have up: "py_upper r = r" unfolding r by (rule strip_suffixes_upper)
  have fx: "strip_suffixes r = r" unfolding r by (rule strip_suffixes_id[OF strip_suffixes_fixed])
  show ?thesis
  proof (cases "r = []")
    case True
    then show ?thesis using Some by (simp add: normalize_duplicate_avid_def)
  next
    case False
    have n: "normalize_duplicate_avid (Some r) = Some (strip_suffixes (py_strip r))"
      using False up by (simp add: normalize_duplicate_avid_def py_upper_strip)
    show ?thesis
    proof (cases "py_strip r = r")
      case True
      then show ?thesis using Some False n fx py_strip_fixed_iff[OF False] by simp
    next
      case ne: False
      have "length (strip_suffixes (py_strip r)) \<le> length (py_strip r)"
        using strip_suffixes_prefix[of "py_strip r"] by (rule prefix_length_le)
      moreover have "length (py_strip r) < length r"
        using ne py_strip_same_length[of r] length_py_strip_le[of r] by linarith
      ultimately have "strip_suffixes (py_strip r) \<noteq> r" by auto
      then show ?thesis using Some False n ne py_strip_fixed_iff[OF False] by simp
    qed
  qed
qed

theorem normalize_idempotent_iff_witness:
  "list_all has_upper ''abc-1-c'' \<and>
   normalize_duplicate_avid (Some ''abc-1-c'') = Some ''ABC-1'' \<and>
   normalize_duplicate_avid (normalize_duplicate_avid (Some ''abc-1-c'')) =
     normalize_duplicate_avid (Some ''abc-1-c'') \<and>
   list_all has_upper ''-C'' \<and>
   normalize_duplicate_avid (Some ''-C'') = Some [] \<and>
   normalize_duplicate_avid (normalize_duplicate_avid (Some ''-C'')) \<noteq>
     normalize_duplicate_avid (Some ''-C'')"
proof -
  have a: "normalize_duplicate_avid (Some ''abc-1-c'') = Some ''ABC-1''" by code_simp
  have b: "list_all has_upper ''abc-1-c''" by code_simp
  have b': "case Some ''abc-1-c'' of None \<Rightarrow> True | Some s \<Rightarrow> \<forall>c\<in>set s. has_upper c"
    using b by (simp add: list_all_iff)
  have c: "\<not> py_isspace (hd ''ABC-1'') \<and> \<not> py_isspace (last ''ABC-1'')" by code_simp
  have d: "normalize_duplicate_avid (Some ''-C'') = Some []" by code_simp
  have e: "list_all has_upper ''-C''" by code_simp
  have e': "case Some ''-C'' of None \<Rightarrow> True | Some s \<Rightarrow> \<forall>c\<in>set s. has_upper c"
    using e by (simp add: list_all_iff)
  from normalize_idempotent_iff[OF b'] a c
  have f: "normalize_duplicate_avid (normalize_duplicate_avid (Some ''abc-1-c'')) =
     normalize_duplicate_avid (Some ''abc-1-c'')" by simp
  from normalize_idempotent_iff[OF e'] d
  have g: "normalize_duplicate_avid (normalize_duplicate_avid (Some ''-C'')) \<noteq>
     normalize_duplicate_avid (Some ''-C'')" by simp
  from a b d e f g show ?thesis by blast
qed

text \<open>
  Claim C7, as stated, fails: the suffix is removed after the trimming, so \<open>A -C\<close>
  becomes \<open>A\<close> followed by a blank, and a second pass trims that blank. The same happens
  with the no-break space 160 in place of the blank. The string \<open>-C\<close> becomes the empty
  string, and a second pass makes \<open>None\<close> of that.
\<close>

theorem normalize_not_idempotent:
  "normalize_duplicate_avid (normalize_duplicate_avid (Some ''A -C'')) = Some ''A'' \<and>
   normalize_duplicate_avid (Some ''A -C'') = Some ''A '' \<and>
   normalize_duplicate_avid (normalize_duplicate_avid (Some ''A -C'')) \<noteq> normalize_duplicate_avid (Some ''A -C'') \<and>
   normalize_duplicate_avid (Some (CHR ''A'' # CHR 0xA0 # ''-C'')) = Some [CHR ''A'', CHR 0xA0] \<and>
   normalize_duplicate_avid (Some [CHR ''A'', CHR 0xA0]) = Some ''A'' \<and>
   normalize_duplicate_avid (Some ''-C'') = Some [] \<and>
   normalize_duplicate_avid (Some []) = None"
  by code_simp

section \<open>Properties of the path-pattern matcher\<close>

text \<open>
  Claim C8, as stated, fails. Every segment of the template is matched against
  directories only, so with \<open>video.mp4\<close> a regular file in both folders the last segment
  matches nothing and the result is the empty set.
\<close>

theorem existing_avids_video_files:
  "get_existing_summary_avids media_files ''media/{num}/video.mp4'' = Inr {} \<and>
   get_existing_summary_avids media_files ''media/{num}/video.mp4'' \<noteq> Inr {''ABC-123''}"
proof -
  have "get_existing_summary_avids media_files ''media/{num}/video.mp4'' = Inr {}"
    by code_simp
  then show ?thesis by simp
qed

text \<open>
  Claim C8, as amended. When \<open>media/ABC-123/video.mp4\<close> and
  \<open>media/ABC-123-C/video.mp4\<close> are directories, the template
  \<open>media/{num}/video.mp4\<close> yields the single identifier \<open>ABC-123\<close>; so does the
  template \<open>media/{num}\<close> over the tree in which they are files.
\<close>

theorem existing_avids_video_dirs:
  "get_existing_summary_avids media_dirs ''media/{num}/video.mp4'' = Inr {''ABC-123''} \<and>
   get_existing_summary_avids media_files ''media/{num}'' = Inr {''ABC-123''}"
proof -
  have "get_existing_summary_avids media_dirs ''media/{num}/video.mp4'' = Inr {''ABC-123''}"
    by code_simp
  moreover have "get_existing_summary_avids media_files ''media/{num}'' = Inr {''ABC-123''}"
    by code_simp
  ultimately show ?thesis by simp
qed

lemma first_match_plain:
  assumes "\<And>n. f n = NoMatch \<or> f n = Match None"
  shows "first_match f k = NoMatch \<or> first_match f k = Match None"
proof (induction k)
  case 0
  show ?case by simp
next
  case (Suc k)
  from assms[of "Suc k"] Suc show ?case by auto
qed

lemma match_parts_plain:
  "Num \<notin> set ps \<Longrightarrow> match_parts ps s = NoMatch \<or> match_parts ps s = Match None"
proof (induction ps arbitrary: s)
  case Nil
  show ?case by simp
next
  case (Cons p ps)
  then have ih: "\<And>t. match_parts ps t = NoMatch \<or> match_parts ps t = Match None" by simp
  from Cons.prems have "p \<noteq> Num" by auto
  then show ?case
  proof (cases p)
    case (Lit l)
    with ih[of "drop (length l) s"] show ?thesis by simp
  next
    case Wild
    with first_match_plain[of "\<lambda>n. match_parts ps (drop n s)", OF ih] show ?thesis by simp
  next
    case AnyPlus
    with first_match_plain[of "\<lambda>n. match_parts ps (drop n s)", OF ih] show ?thesis by simp
  qed simp
qed

lemma expand_candidate_plain:
  assumes "Num \<notin> set regex" "(p, g) \<in> set (expand_candidate fs regex (q, None))"
  shows "g = None"
proof -
  have plain: "v = None" if "Match v = match_parts regex name" for name v
    using match_parts_plain[OF assms(1), of name] that by auto
  from assms(2) show ?thesis
    by (auto simp: expand_candidate_def Let_def
        split: if_splits sum.splits match_result.splits dest: plain)
qed

lemma expand_segments_plain:
  assumes "\<forall>r\<in>set regs. Num \<notin> set r" "\<forall>(p, g)\<in>set cands. g = None"
  shows "\<forall>(p, g)\<in>set (expand_segments fs regs cands). g = None"
  using assms
proof (induction regs arbitrary: cands)
  case Nil
  then show ?case by simp
next
  case (Cons r regs)
  let ?next = "concat (map (expand_candidate fs r) cands)"
  have "\<forall>(p, g)\<in>set ?next. g = None"
  proof (intro ballI, clarify)
    fix p g assume "(p, g) \<in> set ?next"
    then obtain q h where qh: "(q, h) \<in> set cands" and m: "(p, g) \<in> set (expand_candidate fs r (q, h))"
      by auto
    from qh Cons.prems(2) have "h = None" by auto
    with m Cons.prems(1) expand_candidate_plain[of r p g fs q] show "g = None" by simp
  qed
  with Cons.IH[of ?next] Cons.prems(1) show ?case by (simp add: Let_def)
qed

lemma collect_existing_plain:
  assumes "\<forall>(p, g)\<in>set cands. g = None"
  shows "collect_existing cands = {}"
  using assms by (auto simp: collect_existing_def normalize_duplicate_avid_def split: option.splits)

text \<open>
  Claim C9. A template in which the text \<open>{num}\<close> does not occur gives the empty set,
  and so does a template whose literal prefix is not an existing directory; both are
  ordinary results, not errors. The same holds when the text occurs but no segment
  compiles to an expression with the group \<open>num\<close>.
\<close>

theorem existing_avids_empty:
  "(\<not> contains ''{num}'' pattern \<longrightarrow> get_existing_summary_avids fs pattern = Inr {}) \<and>
   (\<not> isdir fs (base_dir_of pattern) \<longrightarrow> get_existing_summary_avids fs pattern = Inr {}) \<and>
   (\<forall>regs. compile_segments (snd (split_output_pattern pattern)) = Inr regs \<longrightarrow>
       (\<forall>r\<in>set regs. Num \<notin> set r) \<longrightarrow> get_existing_summary_avids fs pattern = Inr {})"
proof (intro conjI allI impI)
  assume "\<not> contains ''{num}'' pattern"
  then show "get_existing_summary_avids fs pattern = Inr {}"
    by (simp add: get_existing_summary_avids_def)
next
  assume "\<not> isdir fs (base_dir_of pattern)"
  then show "get_existing_summary_avids fs pattern = Inr {}"
    by (simp add: get_existing_summary_avids_def Let_def)
next
  fix regs
  assume c: "compile_segments (snd (split_output_pattern pattern)) = Inr regs"
    and n: "\<forall>r\<in>set regs. Num \<notin> set r"
  have "\<forall>(p, g)\<in>set (expand_segments fs regs [(base_dir_of pattern, None)]). g = None"
    by (rule expand_segments_plain[OF n]) simp
  then have "collect_existing (expand_segments fs regs [(base_dir_of pattern, None)]) = {}"
    by (rule collect_existing_plain)
  with c show "get_existing_summary_avids fs pattern = Inr {}"
    by (simp add: get_existing_summary_avids_def Let_def)
qed

theorem existing_avids_empty_witness:
  "\<not> contains ''{num}'' ''media/{title}'' \<and>
   get_existing_summary_avids media_files ''media/{title}'' = Inr {} \<and>
   \<not> isdir media_files (base_dir_of ''nomedia/{num}'') \<and>
   contains ''{num}'' ''nomedia/{num}'' \<and>
   get_existing_summary_avids media_files ''nomedia/{num}'' = Inr {} \<and>
   contains ''{num}'' ''media/{a{num}'' \<and>
   isdir media_files (base_dir_of ''media/{a{num}'') \<and>
   compile_segments (snd (split_output_pattern ''media/{a{num}'')) = Inr [[Lit [], Wild, Lit []]] \<and>
   get_existing_summary_avids media_files ''media/{a{num}'' = Inr {}"
proof -
  have a: "\<not> contains ''{num}'' ''media/{title}''" by code_simp
  have b: "\<not> isdir media_files (base_dir_of ''nomedia/{num}'')" by code_simp
  have c: "contains ''{num}'' ''nomedia/{num}''" by code_simp
  have d: "contains ''{num}'' ''media/{a{num}''" by code_simp
  have e: "isdir media_files (base_dir_of ''media/{a{num}'')" by code_simp
  have f: "compile_segments (snd (split_output_pattern ''media/{a{num}'')) = Inr [[Lit [], Wild, Lit []]]"
    by code_simp
  have g: "\<forall>r\<in>set [[Lit [], Wild, Lit []]]. Num \<notin> set r" by simp
  from existing_avids_empty[of "''media/{a{num}''" media_files] f g
  have h: "get_existing_summary_avids media_files ''media/{a{num}'' = Inr {}" by blast
  show ?thesis
    using a b c d e f h existing_avids_empty[of "''media/{title}''" media_files]
      existing_avids_empty[of "''nomedia/{num}''" media_files]
    by blast
qed

section \<open>Scans that stop, and scans of a root that is not there\<close>

lemma skipped_files_of_Nil: "skipped_files_of [] = []"
  by (simp add: skipped_files_of_def)

lemma build_msg_Nil: "build_msg fs root [] = []"
  by (simp add: build_msg_def)

lemma scan_of_empty_walk:
  assumes "walk_root c fs root = Inr empty_state"
  shows "scan_movies c fs root =
           Inr \<lparr> res_movies = [], res_failed = [], res_skipped = [], res_msg = [] \<rparr>"
  using assms
  by (simp add: scan_movies_def collect_groups_def empty_state_def dict_keys_def
      skipped_files_of_Nil build_msg_Nil)

text \<open>
  Claim C4, as stated, fails: for a root that does not exist the scan returns the empty
  list as an ordinary result, and no error.
\<close>

theorem scan_missing_root_no_error:
  "resolve parts_fs ''/nowhere'' = None \<and>
   scan_movies demo_config parts_fs ''/nowhere'' =
     Inr \<lparr> res_movies = [], res_failed = [], res_skipped = [], res_msg = [] \<rparr>"
  by code_simp

text \<open>
  Claim C4, as amended. For a root that does not exist, that is a regular file, or that
  is a directory which cannot be listed, the scan raises no error: it returns no movie,
  adds no failed item, skips no file and has no message.
\<close>

theorem scan_invalid_root_empty:
  assumes "resolve fs root = None \<or> (\<exists>sz. resolve fs root = Some (File sz))
             \<or> (\<exists>es. resolve fs root = Some (Dir False es))"
  shows "scan_movies c fs root =
           Inr \<lparr> res_movies = [], res_failed = [], res_skipped = [], res_msg = [] \<rparr>"
proof -
  from assms have "walk_root c fs root = Inr empty_state"
    by (auto simp: walk_root_def)
  then show ?thesis by (rule scan_of_empty_walk)
qed

theorem scan_invalid_root_empty_witness:
  "resolve unreadable_fs ''/root/A/ABC-123.mp4'' = Some (File 500) \<and>
   scan_movies demo_config unreadable_fs ''/root/A/ABC-123.mp4'' =
     Inr \<lparr> res_movies = [], res_failed = [], res_skipped = [], res_msg = [] \<rparr> \<and>
   resolve unreadable_fs ''/root/locked'' = Some (Dir False []) \<and>
   scan_movies demo_config unreadable_fs ''/root/locked'' =
     Inr \<lparr> res_movies = [], res_failed = [], res_skipped = [], res_msg = [] \<rparr> \<and>
   resolve unreadable_fs ''/root/none'' = None \<and>
   scan_movies demo_config unreadable_fs ''/root/none'' =
     Inr \<lparr> res_movies = [], res_failed = [], res_skipped = [], res_msg = [] \<rparr>"
proof -
  have a: "resolve unreadable_fs ''/root/A/ABC-123.mp4'' = Some (File 500)" by code_simp
  have b: "resolve unreadable_fs ''/root/locked'' = Some (Dir False [])" by code_simp
  have c: "resolve unreadable_fs ''/root/none'' = None" by code_simp
  show ?thesis
    using a b c
      scan_invalid_root_empty[of unreadable_fs "''/root/A/ABC-123.mp4''" demo_config]
      scan_invalid_root_empty[of unreadable_fs "''/root/locked''" demo_config]
      scan_invalid_root_empty[of unreadable_fs "''/root/none''" demo_config]
    by simp
qed

text \<open>
  Claim C5 does not hold of the code when folders with an \<open>.nfo\<close> file are to be
  skipped. A folder that matches the ignore pattern and holds an \<open>.nfo\<close> file is removed
  from \<open>dirnames\<close> twice, and the second removal raises \<open>ValueError\<close>; a folder that
  cannot be listed makes \<open>os.listdir\<close> raise \<open>OSError\<close>. Either error ends the scan,
  although the folder \<open>A\<close> next to it holds a video. With the option off both scans run
  to their end.
\<close>

theorem scan_aborts_with_skip_nfo_dir:
  "scan_movies nfo_config hidden_nfo_fs ''/root'' = Inl ValueError \<and>
   scan_movies nfo_config unreadable_fs ''/root'' = Inl OSError \<and>
   scan_movies demo_config hidden_nfo_fs ''/root'' =
     Inr \<lparr> res_movies =
             [\<lparr> mov_dvdid = Some ''ABC-123'', mov_cid = None,
                mov_files = [''/root/A/ABC-123.mp4''], mov_data_src = ''normal'' \<rparr>],
           res_failed = [], res_skipped = [], res_msg = [] \<rparr> \<and>
   scan_movies demo_config unreadable_fs ''/root'' =
     scan_movies demo_config hidden_nfo_fs ''/root''"
proof -
  have a: "scan_movies nfo_config hidden_nfo_fs ''/root'' = Inl ValueError" by code_simp
  have b: "scan_movies nfo_config unreadable_fs ''/root'' = Inl OSError" by code_simp
  have c: "scan_movies demo_config hidden_nfo_fs ''/root'' =
     Inr \<lparr> res_movies =
             [\<lparr> mov_dvdid = Some ''ABC-123'', mov_cid = None,
                mov_files = [''/root/A/ABC-123.mp4''], mov_data_src = ''normal'' \<rparr>],
           res_failed = [], res_skipped = [], res_msg = [] \<rparr>" by code_simp
  have d: "scan_movies demo_config unreadable_fs ''/root'' =
     Inr \<lparr> res_movies =
             [\<lparr> mov_dvdid = Some ''ABC-123'', mov_cid = None,
                mov_files = [''/root/A/ABC-123.mp4''], mov_data_src = ''normal'' \<rparr>],
           res_failed = [], res_skipped = [], res_msg = [] \<rparr>" by code_simp
  show ?thesis using a b c d by simp
qed

text \<open>
  Claim C10 does not hold of the code. In the folder \<open>ABC-123\<close> the 27 files
  \<open>a.mp4\<close> to \<open>z.mp4\<close> and \<open>{.mp4\<close> have no common prefix; the first characters of
  their names are distinct, the rest of each name is \<open>.mp4\<close>, and the characters run
  from \<open>a\<close> without a gap, the brace being the code point after \<open>z\<close>. The scan returns
  one movie with all 27 files.
\<close>

theorem scan_accepts_27_slices:
  "(case scan_movies demo_config letters_fs ''/root'' of
      Inl e \<Rightarrow> False
    | Inr res \<Rightarrow>
        map (\<lambda>m. (mov_dvdid m, length (mov_files m), last (mov_files m))) (res_movies res) =
          [(Some ''ABC-123'', 27, ''/root/ABC-123/{.mp4'')]
        \<and> res_msg res = [])"
  by code_simp

section \<open>Properties of the slice detector\<close>

lemma slice_sub_nonempty: "s \<noteq> [] \<Longrightarrow> slice_sub pre s \<noteq> []"
  by (cases s) (auto split: option.splits)

lemma remaining_nonempty:
  assumes "\<forall>f\<in>set files. basename f \<noteq> []"
  shows "[] \<notin> set (remaining_of files)"
  using assms by (auto simp: remaining_of_def Let_def py_lower_def slice_sub_nonempty)

lemma slices_of_token:
  "slices_of files = map (slice_token (commonprefix (map basename files))) files"
  by (simp add: slices_of_def remaining_of_def slice_token_def Let_def)

lemma length_slices_of: "length (slices_of files) = length files"
  by (simp add: slices_of_token)

lemma resolve_group_total:
  assumes "\<forall>f\<in>set files. basename f \<noteq> []"
  shows "\<exists>out. resolve_group files = Inr out"
  using remaining_nonempty[OF assms] by (simp add: resolve_group_def Let_def)

lemma gap_nth:
  fixes ys :: "nat list"
  assumes "sorted_wrt (<) ys" "j < length ys" "i \<le> j"
  shows "ys ! i + (j - i) \<le> ys ! j"
  using assms(2,3)
proof (induction j)
  case 0
  then show ?case by simp
next
  case (Suc j)
  show ?case
  proof (cases "i = Suc j")
    case True
    then show ?thesis by simp
  next
    case False
    with Suc.prems have ij: "i \<le> j" and j: "j < length ys" by simp_all
    have "ys ! j < ys ! Suc j"
      using assms(1) Suc.prems(1) by (simp add: sorted_wrt_iff_nth_less)
    with Suc.IH[OF j ij] ij show ?thesis by simp
  qed
qed

lemma contiguous_run:
  fixes ys :: "nat list"
  assumes "sorted_wrt (<) ys" "ys \<noteq> []" "last ys + 1 = hd ys + length ys"
  shows "ys = [hd ys ..< hd ys + length ys]"
proof (rule nth_equalityI)
  show "length ys = length [hd ys ..< hd ys + length ys]" by simp
next
  fix i assume i: "i < length ys"
  have h: "hd ys = ys ! 0" using assms(2) by (simp add: hd_conv_nth)
  have l: "last ys = ys ! (length ys - 1)" using assms(2) by (simp add: last_conv_nth)
  have lo: "ys ! 0 + i \<le> ys ! i" using gap_nth[OF assms(1) i, of 0] by simp
  have "ys ! i + (length ys - 1 - i) \<le> ys ! (length ys - 1)"
    using gap_nth[OF assms(1), of "length ys - 1" i] i by simp
  with assms(3) h l i have "ys ! i \<le> ys ! 0 + i" by simp
  with lo h i show "ys ! i = [hd ys ..< hd ys + length ys] ! i" by simp
qed

lemma of_char_strict: "sorted_wrt (<) (cs :: char list) \<Longrightarrow> sorted_wrt (<) (map (of_char :: char \<Rightarrow> nat) cs)"
  unfolding sorted_wrt_map
  by (erule sorted_wrt_mono_rel[rotated]) (simp only: less_char_def)

lemma sort_strict: "distinct (cs :: char list) \<Longrightarrow> sorted_wrt (<) (sort cs)"
  by (simp add: strict_sorted_iff)

lemma index_of_nth: "distinct xs \<Longrightarrow> j < length xs \<Longrightarrow> index_of xs (xs ! j) = j"
proof (induction xs arbitrary: j)
  case Nil
  then show ?case by simp
next
  case (Cons x xs)
  then show ?case by (cases j) auto
qed

lemma index_of_mem: "x \<in> set xs \<Longrightarrow> index_of xs x < length xs \<and> xs ! index_of xs x = x"
  by (induction xs) auto

lemma map_index_of_self:
  assumes "distinct xs" "length ys = length xs"
  shows "map (\<lambda>i. ys ! index_of xs i) xs = ys"
  using assms by (intro nth_equalityI) (simp_all add: index_of_nth)

lemma reorder_mset:
  assumes "distinct xs" "length ys = length xs"
  shows "mset (map (\<lambda>i. ys ! index_of xs i) (sort xs)) = mset ys"
proof -
  have "mset (map (\<lambda>i. ys ! index_of xs i) (sort xs)) = image_mset (\<lambda>i. ys ! index_of xs i) (mset xs)"
    by simp
  also have "\<dots> = mset (map (\<lambda>i. ys ! index_of xs i) xs)" by simp
  also have "\<dots> = mset ys" using map_index_of_self[OF assms] by simp
  finally show ?thesis .
qed

subsection \<open>Dictionaries\<close>

lemma map_of_dict_set: "map_of (dict_set k v d) = (map_of d)(k \<mapsto> v)"
  by (induction k v d rule: dict_set.induct) (auto simp: fun_eq_iff)

lemma keys_dict_set: "fst ` set (dict_set k v d) = insert k (fst ` set d)"
  by (induction k v d rule: dict_set.induct) auto

lemma distinct_dict_set: "distinct (map fst d) \<Longrightarrow> distinct (map fst (dict_set k v d))"
  by (induction k v d rule: dict_set.induct) (auto simp: keys_dict_set)

lemma map_of_dict_del: "map_of (dict_del k d) = (map_of d)(k := None)"
  by (induction d) (auto simp: dict_del_def fun_eq_iff)

lemma distinct_dict_del: "distinct (map fst d) \<Longrightarrow> distinct (map fst (dict_del k d))"
  by (simp add: dict_del_def distinct_map_filter)

lemma set_dict_del: "set (dict_del k d) \<subseteq> set d"
  by (auto simp: dict_del_def)

lemma keys_dict_append: "fst ` set (dict_append k v d) = insert k (fst ` set d)"
  by (induction k v d rule: dict_append.induct) auto

lemma distinct_dict_append: "distinct (map fst d) \<Longrightarrow> distinct (map fst (dict_append k v d))"
  by (induction k v d rule: dict_append.induct) (auto simp: keys_dict_append)

lemma dict_append_cases:
  "(k', vs') \<in> set (dict_append k v d) \<Longrightarrow>
     (k', vs') \<in> set d \<or> (k' = k \<and> vs' = [v]) \<or> (k' = k \<and> (\<exists>vs. (k, vs) \<in> set d \<and> vs' = vs @ [v]))"
  by (induction k v d rule: dict_append.induct) (auto split: if_splits)

lemma dict_append_pres:
  assumes "\<forall>(k', vs)\<in>set d. P k' vs" "P k [v]" "\<And>vs. P k vs \<Longrightarrow> P k (vs @ [v])"
  shows "\<forall>(k', vs)\<in>set (dict_append k v d). P k' vs"
proof safe
  fix k' vs' assume "(k', vs') \<in> set (dict_append k v d)"
  from dict_append_cases[OF this] show "P k' vs'"
    using assms by auto
qed

lemma map_fst_dict_extend: "map fst (dict_extend k vs d) = map fst d"
  by (induction d) (auto simp: dict_extend_def)

lemma map_of_dict_extend:
  "map_of (dict_extend k vs d) k' =
     (if k' = k then map_option (\<lambda>v. v @ vs) (map_of d k) else map_of d k')"
  by (induction d) (auto simp: dict_extend_def)

lemma dict_extend_cases:
  "(k', v') \<in> set (dict_extend k vs d) \<Longrightarrow>
     (k', v') \<in> set d \<or> (k' = k \<and> (\<exists>v. (k, v) \<in> set d \<and> v' = v @ vs))"
  by (auto simp: dict_extend_def split: if_splits)

lemma dict_extend_pres:
  assumes "\<forall>(k', v)\<in>set d. P k' v" "\<And>v. P k v \<Longrightarrow> P k (v @ vs)"
  shows "\<forall>(k', v)\<in>set (dict_extend k vs d). P k' v"
proof safe
  fix k' v' assume "(k', v') \<in> set (dict_extend k vs d)"
  from dict_extend_cases[OF this] show "P k' v'"
    using assms by auto
qed

lemma map_of_mem: "distinct (map fst d) \<Longrightarrow> (k, v) \<in> set d \<longleftrightarrow> map_of d k = Some v"
  by (auto dest: map_of_SomeD)

subsection \<open>The loop over the groups\<close>

lemma char_step:
  assumes fresh: "map_of items a = None"
    and ih: "\<forall>k. m' k = (case map_of items k of None \<Rightarrow> m1 k
                            | Some fls \<Rightarrow> F (resolve_group fls) fls (m1 k))"
    and other: "\<forall>k. k \<noteq> a \<longrightarrow> m1 k = m k"
    and here: "m1 a = F (resolve_group fls0) fls0 (m a)"
  shows "\<forall>k. m' k = (case map_of ((a, fls0) # items) k of None \<Rightarrow> m k
                       | Some fls \<Rightarrow> F (resolve_group fls) fls (m k))"
proof
  fix k
  show "m' k = (case map_of ((a, fls0) # items) k of None \<Rightarrow> m k
                | Some fls \<Rightarrow> F (resolve_group fls) fls (m k))"
  proof (cases "k = a")
    case True
    with ih fresh here show ?thesis by simp
  next
    case False
    with other have "m1 k = m k" by simp
    with ih[rule_format, of k] False show ?thesis
      by (cases "map_of items k") simp_all
  qed
qed

lemma resolve_groups_char:
  assumes "distinct (map fst items)"
    and "\<forall>(k, fls)\<in>set items. \<exists>out. resolve_group fls = Inr out"
  shows "\<exists>dic' dup'. resolve_groups items (dic, dup) = Inr (dic', dup') \<and>
     (\<forall>k. map_of dic' k =
        (case map_of items k of None \<Rightarrow> map_of dic k
         | Some fls \<Rightarrow> (\<lambda>r fls old. dic_after r old) (resolve_group fls) fls (map_of dic k))) \<and>
     (\<forall>k. map_of dup' k =
        (case map_of items k of None \<Rightarrow> map_of dup k
         | Some fls \<Rightarrow> dup_after (resolve_group fls) fls (map_of dup k))) \<and>
     (distinct (map fst dic) \<longrightarrow> distinct (map fst dic')) \<and>
     (distinct (map fst dup) \<longrightarrow> distinct (map fst dup'))"
  using assms
proof (induction items arbitrary: dic dup)
  case Nil
  then show ?case by simp
next
  case (Cons item items)
  obtain a fls where item: "item = (a, fls)" by (cases item)
  from Cons.prems item have fresh: "map_of items a = None"
    by (simp add: map_of_eq_None_iff)
  from Cons.prems item obtain out where out: "resolve_group fls = Inr out" by auto
  from Cons.prems have d: "distinct (map fst items)"
    and t: "\<forall>(k, fls)\<in>set items. \<exists>out. resolve_group fls = Inr out" by simp_all
  define dic1 where "dic1 = (case out of Single \<Rightarrow> dic | Sliced m \<Rightarrow> dict_set a m dic
                              | _ \<Rightarrow> dict_del a dic)"
  define dup1 where "dup1 = (case out of Single \<Rightarrow> dup | Sliced m \<Rightarrow> dup
                              | _ \<Rightarrow> dict_set a fls dup)"
  have step: "resolve_groups (item # items) (dic, dup) = resolve_groups items (dic1, dup1)"
    using item out by (cases out) (simp_all add: dic1_def dup1_def)
  have o1: "\<forall>k. k \<noteq> a \<longrightarrow> map_of dic1 k = map_of dic k"
    by (cases out) (simp_all add: dic1_def map_of_dict_set map_of_dict_del)
  have t1: "map_of dic1 a = dic_after (resolve_group fls) (map_of dic a)"
    using out by (cases out) (simp_all add: dic1_def map_of_dict_set map_of_dict_del)
  have o2: "\<forall>k. k \<noteq> a \<longrightarrow> map_of dup1 k = map_of dup k"
    by (cases out) (simp_all add: dup1_def map_of_dict_set)
  have t2: "map_of dup1 a = dup_after (resolve_group fls) fls (map_of dup a)"
    using out by (cases out) (simp_all add: dup1_def map_of_dict_set)
  have dd: "distinct (map fst dic) \<longrightarrow> distinct (map fst dic1)"
    by (cases out) (simp_all add: dic1_def distinct_dict_set distinct_dict_del)
  have du: "distinct (map fst dup) \<longrightarrow> distinct (map fst dup1)"
    by (cases out) (simp_all add: dup1_def distinct_dict_set)
  from Cons.IH[OF d t, of dic1 dup1] obtain dic' dup' where
    r: "resolve_groups items (dic1, dup1) = Inr (dic', dup')"
    and m1: "\<forall>k. map_of dic' k =
        (case map_of items k of None \<Rightarrow> map_of dic1 k
         | Some fls \<Rightarrow> (\<lambda>r fls old. dic_after r old) (resolve_group fls) fls (map_of dic1 k))"
    and m2: "\<forall>k. map_of dup' k =
        (case map_of items k of None \<Rightarrow> map_of dup1 k
         | Some fls \<Rightarrow> dup_after (resolve_group fls) fls (map_of dup1 k))"
    and d1: "distinct (map fst dic1) \<longrightarrow> distinct (map fst dic')"
    and d2: "distinct (map fst dup1) \<longrightarrow> distinct (map fst dup')"
    by blast
  have "resolve_groups (item # items) (dic, dup) = Inr (dic', dup')"
    using step r by simp
  moreover have "\<forall>k. map_of dic' k =
        (case map_of ((a, fls) # items) k of None \<Rightarrow> map_of dic k
         | Some fls \<Rightarrow> (\<lambda>r fls old. dic_after r old) (resolve_group fls) fls (map_of dic k))"
    by (rule char_step[where F = "\<lambda>r fls old. dic_after r old" and ?m1.0 = "map_of dic1",
          OF fresh m1 o1]) (simp add: t1)
  moreover have "\<forall>k. map_of dup' k =
        (case map_of ((a, fls) # items) k of None \<Rightarrow> map_of dup k
         | Some fls \<Rightarrow> dup_after (resolve_group fls) fls (map_of dup k))"
    by (rule char_step[where F = dup_after and ?m1.0 = "map_of dup1", OF fresh m2 o2]) (simp add: t2)
  ultimately show ?case
    unfolding item using dd du d1 d2 by blast
qed

subsection \<open>The records\<close>

lemma make_movie_char:
  assumes "fls \<noteq> []"
  shows "\<exists>mov. make_movie c (k, fls) = Inr mov \<and> movie_key mov = Some k \<and> mov_files mov = fls"
proof (cases "guess_av_type c k = ''cid''")
  case True
  from assms obtain f rest where "fls = f # rest" by (cases fls) auto
  with True show ?thesis by (simp add: make_movie_def movie_key_def)
next
  case False
  then show ?thesis by (simp add: make_movie_def movie_key_def)
qed

lemma make_movies_char:
  assumes "\<forall>(k, fls)\<in>set d. fls \<noteq> []"
  shows "\<exists>movs. make_movies c d = Inr movs \<and>
           map movie_key movs = map (\<lambda>(k, fls). Some k) d \<and>
           map mov_files movs = map snd d"
  using assms
proof (induction d)
  case Nil
  then show ?case by simp
next
  case (Cons item d)
  obtain k fls where item: "item = (k, fls)" by (cases item)
  with Cons.prems have "fls \<noteq> []" by simp
  from make_movie_char[OF this, of c k] obtain mov where
    mov: "make_movie c (k, fls) = Inr mov" "movie_key mov = Some k" "mov_files mov = fls"
    by blast
  from Cons.prems have "\<forall>(k, fls)\<in>set d. fls \<noteq> []" by simp
  from Cons.IH[OF this] obtain movs where movs: "make_movies c d = Inr movs"
    "map movie_key movs = map (\<lambda>(k, fls). Some k) d" "map mov_files movs = map snd d"
    by blast
  show ?case using mov movs item by simp
qed

subsection \<open>The message\<close>

lemma sublist_concat_mem: "x \<in> set xs \<Longrightarrow> sublist x (concat xs)"
proof -
  assume "x \<in> set xs"
  then obtain as bs where "xs = as @ x # bs" by (auto dest: split_list)
  then have "concat xs = concat as @ x @ concat bs" by simp
  then show ?thesis unfolding sublist_def by blast
qed

lemma sublist_prepend: "sublist x y \<Longrightarrow> sublist x (a @ y)"
proof -
  assume "sublist x y"
  then obtain ps ss where "y = ps @ x @ ss" unfolding sublist_def by blast
  then have "a @ y = (a @ ps) @ x @ ss" by simp
  then show ?thesis unfolding sublist_def by blast
qed

lemma mem_map: "x \<in> set xs \<Longrightarrow> g x \<in> set (map g xs)"
  by simp

lemma msg_contains:
  assumes "(avid, fls) \<in> set dup" "f \<in> set fls"
  shows "sublist (''  '' @ relpath fs f root @ [CHR 0x0A]) (build_msg fs root dup)"
proof -
  have "(''  '' @ relpath fs f root @ [CHR 0x0A]) \<in> set (map (\<lambda>f. ''  '' @ relpath fs f root @ [CHR 0x0A]) fls)"
    using assms(2) by (rule mem_map[where g = "\<lambda>f. ''  '' @ relpath fs f root @ [CHR 0x0A]"])
  then have "sublist (''  '' @ relpath fs f root @ [CHR 0x0A]) (dup_lines fs root fls)"
    unfolding dup_lines_def by (rule sublist_concat_mem)
  then have "sublist (''  '' @ relpath fs f root @ [CHR 0x0A])
               ((avid @ '': '' @ [CHR 0x0A]) @ dup_lines fs root fls)"
    by (rule sublist_prepend)
  moreover have "((avid @ '': '' @ [CHR 0x0A]) @ dup_lines fs root fls)
      \<in> set (map (\<lambda>(avid, fls). avid @ '': '' @ [CHR 0x0A] @ dup_lines fs root fls) dup)"
    using mem_map[OF assms(1), where g = "\<lambda>(avid, fls). avid @ '': '' @ [CHR 0x0A] @ dup_lines fs root fls"]
    by simp
  then have "sublist ((avid @ '': '' @ [CHR 0x0A]) @ dup_lines fs root fls) (build_msg fs root dup)"
    unfolding build_msg_def by (rule sublist_concat_mem)
  ultimately show ?thesis by (rule sublist_order.order_trans)
qed

subsection \<open>The checks of one group as one predicate\<close>

lemma card_one_iff_all_hd:
  assumes "xs \<noteq> []"
  shows "card (set xs) = 1 \<longleftrightarrow> (\<forall>x\<in>set xs. x = hd xs)"
proof
  assume "card (set xs) = 1"
  then obtain y where y: "set xs = {y}" by (auto simp: card_1_singleton_iff)
  with assms have "hd xs = y" using hd_in_set[OF assms] by simp
  with y show "\<forall>x\<in>set xs. x = hd xs" by simp
next
  assume "\<forall>x\<in>set xs. x = hd xs"
  with assms have "set xs = {hd xs}" using hd_in_set[OF assms] by auto
  then show "card (set xs) = 1" by simp
qed

lemma length_card_iff_distinct: "length xs = card (set xs) \<longleftrightarrow> distinct xs"
  using card_distinct distinct_card by metis

lemma run_check_iff:
  fixes cs :: "char list"
  assumes "distinct cs" "cs \<noteq> []"
  shows "(hd (sort cs) \<in> {CHR ''0'', CHR ''1'', CHR ''a''} \<and>
          int (of_char (last (sort cs))) = int (of_char (hd (sort cs))) + int (length (sort cs)) - 1)
         \<longleftrightarrow> run_from_start (sort cs)"
proof -
  let ?ss = "sort cs"
  let ?ys = "map (of_char :: char \<Rightarrow> nat) ?ss"
  have ne: "?ss \<noteq> []" using assms(2) by (metis length_0_conv length_sort)
  have strict: "sorted_wrt (<) ?ys" by (rule of_char_strict[OF sort_strict[OF assms(1)]])
  have hd: "hd ?ys = of_char (hd ?ss)" using ne assms(2) by (simp add: hd_map)
  have last: "last ?ys = of_char (last ?ss)" using ne assms(2) by (simp add: last_map)
  have len: "0 < length ?ss" using assms(2) by simp
  show ?thesis
  proof
    assume a: "hd ?ss \<in> {CHR ''0'', CHR ''1'', CHR ''a''} \<and>
          int (of_char (last ?ss)) = int (of_char (hd ?ss)) + int (length ?ss) - 1"
    then have "last ?ys + 1 = hd ?ys + length ?ys" using hd last len by simp
    from contiguous_run[OF strict _ this] ne
    have "?ys = [hd ?ys ..< hd ?ys + length ?ys]" by simp
    with a ne hd show "run_from_start ?ss" by (simp add: run_from_start_def)
  next
    assume s: "run_from_start ?ss"
    then have eq: "?ys = [of_char (hd ?ss) ..< of_char (hd ?ss) + length ?ss]"
      by (simp add: run_from_start_def)
    have "last ?ys = last [of_char (hd ?ss) ..< of_char (hd ?ss) + length ?ss]"
      by (subst eq) simp
    also have "\<dots> = of_char (hd ?ss) + length ?ss - 1" using len by (simp add: last_upt)
    finally have "of_char (last ?ss) = (of_char (hd ?ss) :: nat) + length ?ss - 1"
      using last by simp
    moreover obtain n where "length cs = Suc n" using assms(2) by (cases cs) auto
    ultimately have "int (of_char (last ?ss)) = int (of_char (hd ?ss)) + int (length ?ss) - 1"
      by simp
    with s show "hd ?ss \<in> {CHR ''0'', CHR ''1'', CHR ''a''} \<and>
          int (of_char (last ?ss)) = int (of_char (hd ?ss)) + int (length ?ss) - 1"
      by (simp add: run_from_start_def)
  qed
qed

lemma length_postfixes_of: "length (postfixes_of files) = length files"
  by (simp add: postfixes_of_def remaining_of_def Let_def)

lemma resolve_group_accept:
  assumes "length files \<noteq> 1" "files \<noteq> []" "card (set (map dirname files)) \<le> 1"
    and "[] \<notin> set (remaining_of files)"
  shows "resolve_group files =
           (if checks_pass files then Inr (Sliced (mapped_files_of files))
            else if card (set (postfixes_of files)) \<noteq> 1 \<or> \<not> distinct (slices_of files)
            then Inr NotSlices else Inr BadRun)"
proof -
  have pne: "postfixes_of files \<noteq> []" using assms(2) length_postfixes_of[of files] by auto
  have sne: "slices_of files \<noteq> []" using assms(2) length_slices_of[of files] by auto
  note p = card_one_iff_all_hd[OF pne]
  show ?thesis
  proof (cases "card (set (postfixes_of files)) \<noteq> 1 \<or> \<not> distinct (slices_of files)")
    case True
    then have "\<not> checks_pass files" using p by (auto simp: checks_pass_def)
    with True assms show ?thesis
      by (auto simp: resolve_group_def Let_def length_card_iff_distinct)
  next
    case False
    then have c: "card (set (postfixes_of files)) = 1" and d: "distinct (slices_of files)" by simp_all
    note r = run_check_iff[OF d sne]
    have acc: "checks_pass files \<longleftrightarrow> run_from_start (sort (slices_of files))"
      using c d p by (simp add: checks_pass_def)
    show ?thesis
    proof (cases "run_from_start (sort (slices_of files))")
      case True
      with r have "hd (sort (slices_of files)) \<in> {CHR ''0'', CHR ''1'', CHR ''a''}"
        "int (of_char (last (sort (slices_of files)))) =
           int (of_char (hd (sort (slices_of files)))) + int (length (sort (slices_of files))) - 1"
        by blast+
      with True acc c d assms show ?thesis
        by (simp add: resolve_group_def Let_def length_card_iff_distinct)
    next
      case nr: False
      with r have "\<not> (hd (sort (slices_of files)) \<in> {CHR ''0'', CHR ''1'', CHR ''a''} \<and>
        int (of_char (last (sort (slices_of files)))) =
           int (of_char (hd (sort (slices_of files)))) + int (length (sort (slices_of files))) - 1)"
        by blast
      with nr acc c d assms show ?thesis
        by (auto simp: resolve_group_def Let_def length_card_iff_distinct)
    qed
  qed
qed

lemma mapped_files_perm:
  assumes "distinct (slices_of files)"
  shows "mset (mapped_files_of files) = mset files"
  unfolding mapped_files_of_def Let_def
  by (rule reorder_mset[OF assms]) (simp add: length_slices_of)

lemma mapped_files_tokens:
  assumes "distinct (slices_of files)"
  shows "map (slice_token (commonprefix (map basename files))) (mapped_files_of files)
           = sort (slices_of files)"
proof -
  let ?tok = "slice_token (commonprefix (map basename files))"
  have "\<And>i. i \<in> set (slices_of files) \<Longrightarrow> ?tok (files ! index_of (slices_of files) i) = i"
  proof -
    fix i assume "i \<in> set (slices_of files)"
    from index_of_mem[OF this] have lt: "index_of (slices_of files) i < length files"
      and at: "slices_of files ! index_of (slices_of files) i = i"
      by (simp_all add: length_slices_of)
    from at lt show "?tok (files ! index_of (slices_of files) i) = i"
      by (simp add: slices_of_token)
  qed
  then have "map (\<lambda>i. ?tok (files ! index_of (slices_of files) i)) (sort (slices_of files))
               = map (\<lambda>i. i) (sort (slices_of files))"
    by (intro map_cong) simp_all
  then show ?thesis by (simp add: mapped_files_of_def Let_def comp_def)
qed

subsection \<open>The walk keeps the dictionaries in order\<close>

lemma rfind_char_None: "c \<notin> set s \<Longrightarrow> rfind_char c s = None"
  by (induction s) auto

lemma rfind_char_append_notin: "c \<notin> set b \<Longrightarrow> rfind_char c (x @ b) = rfind_char c x"
  by (induction x) (auto simp: rfind_char_None)

lemma rfind_char_snoc: "rfind_char c (y @ [c]) = Some (length y)"
  by (induction y) auto

lemma basename_after_sep:
  assumes "CHR ''/'' \<notin> set b"
  shows "basename (y @ ''/'' @ b) = b"
proof -
  have "rfind_char CHR ''/'' ((y @ ''/'') @ b) = Some (length y)"
    using rfind_char_append_notin[OF assms, of "y @ ''/''"] rfind_char_snoc[of "CHR ''/''" y]
    by simp
  then show ?thesis by (simp add: basename_def)
qed

lemma endswith_sep: "endswith a ''/'' \<Longrightarrow> \<exists>y. a = y @ ''/''"
  by (metis endswith_def append_take_drop_id)

lemma basename_join:
  assumes "CHR ''/'' \<notin> set b"
  shows "basename (path_join a b) = b"
proof -
  have np: "\<not> prefix ''/'' b" using assms by (cases b) auto
  show ?thesis
  proof (cases "a = []")
    case True
    with np assms show ?thesis by (simp add: path_join_def basename_def rfind_char_None)
  next
    case False
    show ?thesis
    proof (cases "endswith a ''/''")
      case True
      then obtain y where "a = y @ ''/''" using endswith_sep by blast
      with np True False basename_after_sep[OF assms, of y] show ?thesis
        by (simp add: path_join_def)
    next
      case ne: False
      with np False basename_after_sep[OF assms, of a] show ?thesis
        by (simp add: path_join_def)
    qed
  qed
qed

lemma good_dic_append:
  assumes "good_dic d" "basename f \<noteq> []"
  shows "good_dic (dict_append k f d)"
proof -
  from assms(1) have "\<forall>(k', vs)\<in>set d. vs \<noteq> [] \<and> (\<forall>f \<in> set vs. basename f \<noteq> [])"
    by (simp add: good_dic_def)
  then have "\<forall>(k', vs)\<in>set (dict_append k f d). vs \<noteq> [] \<and> (\<forall>f \<in> set vs. basename f \<noteq> [])"
    by (rule dict_append_pres) (simp_all add: assms(2))
  with assms(1) show ?thesis by (simp add: good_dic_def distinct_dict_append)
qed

lemma good_small_append:
  assumes "good_small d" "basename f = k" "k \<noteq> []"
  shows "good_small (dict_append k f d)"
proof -
  from assms(1) have "\<forall>(k', vs)\<in>set d. vs \<noteq> [] \<and> k' \<noteq> [] \<and> (\<forall>f \<in> set vs. basename f = k')"
    by (simp add: good_small_def)
  then have "\<forall>(k', vs)\<in>set (dict_append k f d).
      vs \<noteq> [] \<and> k' \<noteq> [] \<and> (\<forall>f \<in> set vs. basename f = k')"
    by (rule dict_append_pres) (simp_all add: assms(2,3))
  with assms(1) show ?thesis by (simp add: good_small_def distinct_dict_append)
qed

lemma visit_file_good:
  assumes "good_state st" "file \<noteq> []" "CHR ''/'' \<notin> set file"
  shows "good_state (visit_file c dirpath (file, sz) st)"
proof -
  have b: "basename (path_join dirpath file) = file" by (rule basename_join[OF assms(3)])
  from assms(1) have d: "good_dic (st_dic st)" and s: "good_small (st_small st)"
    by (simp_all add: good_state_def)
  have d': "good_dic (dict_append k (path_join dirpath file) (st_dic st))" for k
    by (rule good_dic_append[OF d]) (simp add: b assms(2))
  have s': "good_small (dict_append file (path_join dirpath file) (st_small st))"
    by (rule good_small_append[OF s b assms(2)])
  show ?thesis
    using d s d' s' by (simp add: visit_file_def Let_def good_state_def)
qed

lemma fold_visit_good:
  assumes "\<forall>(file, sz)\<in>set entries. file \<noteq> [] \<and> CHR ''/'' \<notin> set file" "good_state st"
  shows "good_state (fold (visit_file c dirpath) entries st)"
  using assms
proof (induction entries arbitrary: st)
  case Nil
  then show ?case by simp
next
  case (Cons e entries)
  obtain fname sz where e: "e = (fname, sz)" by (cases e)
  with Cons.prems have "good_state (visit_file c dirpath e st)"
    by (simp add: visit_file_good)
  with Cons show ?case by simp
qed

lemma file_entries_names:
  assumes "wf_node (Dir r es)"
  shows "\<forall>(file, sz)\<in>set (file_entries es). file \<noteq> [] \<and> CHR ''/'' \<notin> set file"
  using assms by (auto simp: file_entries_def)

lemma wf_child:
  assumes "wf_node (Dir r es)" "map_of es name = Some n"
  shows "wf_node n"
  using assms by (auto dest: map_of_SomeD)

lemma walk_good:
  "wf_node n \<Longrightarrow> good_state st \<Longrightarrow> walk c dirpath n st = Inr st' \<Longrightarrow> good_state st'"
  "wf_node (Dir True es) \<Longrightarrow> good_state st \<Longrightarrow> walk_dirs c dirpath es names st = Inr st'
     \<Longrightarrow> good_state st'"
proof (induction c dirpath n st and c dirpath es names st arbitrary: st' and st'
    rule: walk_walk_dirs.induct)
  case (1 c dirpath sz st)
  then show ?case by simp
next
  case (2 c dirpath readable es st)
  show ?case
  proof (cases readable)
    case False
    with 2 show ?thesis by simp
  next
    case True
    with "2.prems" obtain dirnames where p: "prune_dirs c es (dir_names es) (dir_names es) = Inr dirnames"
      and w: "walk_dirs c dirpath es dirnames (fold (visit_file c dirpath) (file_entries es) st) = Inr st'"
      by (auto split: sum.splits)
    have g: "good_state (fold (visit_file c dirpath) (file_entries es) st)"
      by (rule fold_visit_good[OF file_entries_names[OF "2.prems"(1)] "2.prems"(2)])
    have wf: "wf_node (Dir True es)" using "2.prems"(1) by simp
    from "2.IH"[OF _ p wf g w] True show ?thesis by simp
  qed
next
  case (3 c dirpath es st)
  then show ?case by simp
next
  case (4 c dirpath es name dirnames st)
  show ?case
  proof (cases "map_of es name")
    case None
    with "4.prems" have "walk_dirs c dirpath es dirnames st = Inr st'" by simp
    from "4.IH"(1)[OF None "4.prems"(1,2) this] show ?thesis .
  next
    case (Some n)
    with "4.prems" obtain st1 where w1: "walk c (path_join dirpath name) n st = Inr st1"
      and w2: "walk_dirs c dirpath es dirnames st1 = Inr st'"
      by (auto split: sum.splits)
    have "wf_node n" by (rule wf_child[OF "4.prems"(1) Some])
    from "4.IH"(2)[OF Some this "4.prems"(2) w1] have "good_state st1" .
    from "4.IH"(3)[OF Some w1 "4.prems"(1) this w2] show ?thesis .
  qed
qed

subsection \<open>The merge of the small videos\<close>

lemma in_dict_keys: "in_dict avid d \<longleftrightarrow> (\<exists>a. avid = Some a \<and> a \<in> fst ` set d)"
  by (cases avid) (simp_all add: in_dict_def dict_keys_def)

lemma in_dict_extend: "in_dict avid (dict_extend k vs d) = in_dict avid d"
  using map_fst_dict_extend[of k vs d]
  by (cases avid) (simp_all add: in_dict_def dict_keys_def)

lemma dict_get_del: "k \<noteq> name \<Longrightarrow> dict_get (dict_del name d) k = dict_get d k"
  by (simp add: dict_get_def map_of_dict_del)

lemma dict_get_subset: "set (dict_get d k) \<subseteq> (\<Union>(k, v)\<in>set d. set v)"
proof (cases "map_of d k")
  case None
  then show ?thesis by (simp add: dict_get_def)
next
  case (Some v)
  then have "(k, v) \<in> set d" by (rule map_of_SomeD)
  then have "set v \<subseteq> (\<Union>(k, v)\<in>set d. set v)" by blast
  with Some show ?thesis by (simp add: dict_get_def)
qed

lemma merge_small_char:
  assumes "distinct names"
  shows "\<exists>dic' small' has'. merge_small c names (dic, small, has) = (dic', small', has') \<and>
     map fst dic' = map fst dic \<and>
     (\<forall>k. map_of small' k =
        (if k \<in> set names \<and> in_dict (avid_of c k) dic then None else map_of small k)) \<and>
     (\<forall>a. \<exists>ext. map_of dic' a = map_option (\<lambda>v. v @ ext) (map_of dic a) \<and>
        (\<forall>k\<in>set names. avid_of c k = Some a \<longrightarrow> a \<in> fst ` set dic
            \<longrightarrow> set (dict_get small k) \<subseteq> set ext) \<and>
        set ext \<subseteq> (\<Union>(k, v)\<in>set small. set v)) \<and>
     set small' \<subseteq> set small \<and>
     (distinct (map fst small) \<longrightarrow> distinct (map fst small'))"
  using assms
proof (induction names arbitrary: dic small has)
  case Nil
  have "\<forall>a. \<exists>ext. map_of dic a = map_option (\<lambda>v. v @ ext) (map_of dic a) \<and>
      set ext \<subseteq> (\<Union>(k, v)\<in>set small. set v)"
  proof
    fix a
    have "map_of dic a = map_option (\<lambda>v. v @ []) (map_of dic a)"
      by (cases "map_of dic a") simp_all
    then show "\<exists>ext. map_of dic a = map_option (\<lambda>v. v @ ext) (map_of dic a) \<and>
      set ext \<subseteq> (\<Union>(k, v)\<in>set small. set v)"
      by (intro exI[of _ "[]"]) simp
  qed
  then show ?case by simp
next
  case (Cons name names)
  from Cons.prems have dn: "distinct names" and fresh: "name \<notin> set names" by simp_all
  show ?case
  proof (cases "in_dict (avid_of c name) dic")
    case False
    define has1 where "has1 = (if truthy (avid_of c name)
                               then dict_set name (the (avid_of c name)) has else has)"
    have step: "merge_small c (name # names) (dic, small, has) = merge_small c names (dic, small, has1)"
      using False by (simp add: has1_def Let_def)
    from Cons.IH[OF dn, of dic small has1] obtain dic' small' has' where
      r: "merge_small c names (dic, small, has1) = (dic', small', has')"
      and k: "map fst dic' = map fst dic"
      and s: "\<forall>k. map_of small' k =
        (if k \<in> set names \<and> in_dict (avid_of c k) dic then None else map_of small k)"
      and e: "\<forall>a. \<exists>ext. map_of dic' a = map_option (\<lambda>v. v @ ext) (map_of dic a) \<and>
        (\<forall>k\<in>set names. avid_of c k = Some a \<longrightarrow> a \<in> fst ` set dic
            \<longrightarrow> set (dict_get small k) \<subseteq> set ext) \<and>
        set ext \<subseteq> (\<Union>(k, v)\<in>set small. set v)"
      and sub: "set small' \<subseteq> set small"
      and dist: "distinct (map fst small) \<longrightarrow> distinct (map fst small')"
      by blast
    have s': "\<forall>k. map_of small' k =
        (if k \<in> set (name # names) \<and> in_dict (avid_of c k) dic then None else map_of small k)"
      using s False by auto
    have e': "\<forall>a. \<exists>ext. map_of dic' a = map_option (\<lambda>v. v @ ext) (map_of dic a) \<and>
        (\<forall>k\<in>set (name # names). avid_of c k = Some a \<longrightarrow> a \<in> fst ` set dic
            \<longrightarrow> set (dict_get small k) \<subseteq> set ext) \<and>
        set ext \<subseteq> (\<Union>(k, v)\<in>set small. set v)"
    proof
      fix a
      from e obtain ext where x: "map_of dic' a = map_option (\<lambda>v. v @ ext) (map_of dic a)"
        "\<forall>k\<in>set names. avid_of c k = Some a \<longrightarrow> a \<in> fst ` set dic
            \<longrightarrow> set (dict_get small k) \<subseteq> set ext"
        "set ext \<subseteq> (\<Union>(k, v)\<in>set small. set v)" by blast
      have "avid_of c name = Some a \<longrightarrow> a \<in> fst ` set dic \<longrightarrow> set (dict_get small name) \<subseteq> set ext"
        using False by (simp add: in_dict_keys)
      with x show "\<exists>ext. map_of dic' a = map_option (\<lambda>v. v @ ext) (map_of dic a) \<and>
        (\<forall>k\<in>set (name # names). avid_of c k = Some a \<longrightarrow> a \<in> fst ` set dic
            \<longrightarrow> set (dict_get small k) \<subseteq> set ext) \<and>
        set ext \<subseteq> (\<Union>(k, v)\<in>set small. set v)"
        by (intro exI[of _ ext]) simp
    qed
    show ?thesis using step r k s' e' sub dist by simp
  next
    case True
    then obtain a0 where a0: "avid_of c name = Some a0" "a0 \<in> fst ` set dic"
      by (auto simp: in_dict_keys)
    define p where "p = dict_get small name"
    define dic1 where "dic1 = dict_extend a0 p dic"
    define small1 where "small1 = dict_del name small"
    have step: "merge_small c (name # names) (dic, small, has) = merge_small c names (dic1, small1, has)"
      using True a0 by (simp add: dic1_def small1_def p_def Let_def)
    have keys1: "map fst dic1 = map fst dic" by (simp add: dic1_def map_fst_dict_extend)
    then have img1: "fst ` set dic1 = fst ` set dic" by (metis set_map)
    have in1: "in_dict x dic1 = in_dict x dic" for x by (simp add: dic1_def in_dict_extend)
    have sub1: "set small1 \<subseteq> set small" by (simp add: small1_def set_dict_del)
    from Cons.IH[OF dn, of dic1 small1 has] obtain dic' small' has' where
      r: "merge_small c names (dic1, small1, has) = (dic', small', has')"
      and k: "map fst dic' = map fst dic1"
      and s: "\<forall>k. map_of small' k =
        (if k \<in> set names \<and> in_dict (avid_of c k) dic1 then None else map_of small1 k)"
      and e: "\<forall>a. \<exists>ext. map_of dic' a = map_option (\<lambda>v. v @ ext) (map_of dic1 a) \<and>
        (\<forall>k\<in>set names. avid_of c k = Some a \<longrightarrow> a \<in> fst ` set dic1
            \<longrightarrow> set (dict_get small1 k) \<subseteq> set ext) \<and>
        set ext \<subseteq> (\<Union>(k, v)\<in>set small1. set v)"
      and sub: "set small' \<subseteq> set small1"
      and dist: "distinct (map fst small1) \<longrightarrow> distinct (map fst small')"
      by blast
    have s': "\<forall>k. map_of small' k =
        (if k \<in> set (name # names) \<and> in_dict (avid_of c k) dic then None else map_of small k)"
    proof
      fix k
      show "map_of small' k =
        (if k \<in> set (name # names) \<and> in_dict (avid_of c k) dic then None else map_of small k)"
        using s[rule_format, of k] True fresh
        by (cases "k = name") (auto simp: in1 small1_def map_of_dict_del)
    qed
    have e': "\<forall>a. \<exists>ext. map_of dic' a = map_option (\<lambda>v. v @ ext) (map_of dic a) \<and>
        (\<forall>k\<in>set (name # names). avid_of c k = Some a \<longrightarrow> a \<in> fst ` set dic
            \<longrightarrow> set (dict_get small k) \<subseteq> set ext) \<and>
        set ext \<subseteq> (\<Union>(k, v)\<in>set small. set v)"
    proof
      fix a
      from e obtain ext where x: "map_of dic' a = map_option (\<lambda>v. v @ ext) (map_of dic1 a)"
        and y: "\<forall>k\<in>set names. avid_of c k = Some a \<longrightarrow> a \<in> fst ` set dic1
            \<longrightarrow> set (dict_get small1 k) \<subseteq> set ext"
        and z: "set ext \<subseteq> (\<Union>(k, v)\<in>set small1. set v)" by blast
      have y': "\<forall>k\<in>set names. avid_of c k = Some a \<longrightarrow> a \<in> fst ` set dic
            \<longrightarrow> set (dict_get small k) \<subseteq> set ext"
      proof (intro ballI impI)
        fix k assume kk: "k \<in> set names" "avid_of c k = Some a" "a \<in> fst ` set dic"
        with fresh have "k \<noteq> name" by auto
        then have g: "dict_get small1 k = dict_get small k" by (simp add: small1_def dict_get_del)
        from kk(3) img1 have "a \<in> fst ` set dic1" by simp
        with y[rule_format, OF kk(1,2)] g show "set (dict_get small k) \<subseteq> set ext" by simp
      qed
      have z': "set ext \<subseteq> (\<Union>(k, v)\<in>set small. set v)" using z sub1 by blast
      have pz: "set p \<subseteq> (\<Union>(k, v)\<in>set small. set v)"
        unfolding p_def by (rule dict_get_subset)
      show "\<exists>ext. map_of dic' a = map_option (\<lambda>v. v @ ext) (map_of dic a) \<and>
        (\<forall>k\<in>set (name # names). avid_of c k = Some a \<longrightarrow> a \<in> fst ` set dic
            \<longrightarrow> set (dict_get small k) \<subseteq> set ext) \<and>
        set ext \<subseteq> (\<Union>(k, v)\<in>set small. set v)"
      proof (cases "a = a0")
        case True
        have "map_of dic' a = map_option (\<lambda>v. v @ (p @ ext)) (map_of dic a)"
          using x True by (cases "map_of dic a0") (simp_all add: dic1_def map_of_dict_extend)
        moreover have "\<forall>k\<in>set (name # names). avid_of c k = Some a \<longrightarrow> a \<in> fst ` set dic
            \<longrightarrow> set (dict_get small k) \<subseteq> set (p @ ext)"
          using y' by (auto simp: p_def)
        moreover have "set (p @ ext) \<subseteq> (\<Union>(k, v)\<in>set small. set v)" using z' pz by simp
        ultimately show ?thesis by blast
      next
        case False
        have "map_of dic' a = map_option (\<lambda>v. v @ ext) (map_of dic a)"
          using x False by (simp add: dic1_def map_of_dict_extend)
        moreover have "\<forall>k\<in>set (name # names). avid_of c k = Some a \<longrightarrow> a \<in> fst ` set dic
            \<longrightarrow> set (dict_get small k) \<subseteq> set ext"
          using y' False a0 by auto
        ultimately show ?thesis using z' by blast
      qed
    qed
    have "distinct (map fst small) \<longrightarrow> distinct (map fst small')"
      using dist by (simp add: small1_def distinct_dict_del)
    moreover have "set small' \<subseteq> set small" using sub sub1 by simp
    ultimately show ?thesis using step r k keys1 s' e' by simp
  qed
qed

subsection \<open>The whole scan of a well-formed tree\<close>

lemma good_empty_state: "good_state empty_state"
  by (simp add: good_state_def good_dic_def good_small_def empty_state_def)

lemma walk_root_good:
  assumes "wf_root fs root" "walk_root c fs root = Inr st"
  shows "good_state st"
proof (cases "resolve fs root")
  case None
  with assms(2) show ?thesis by (simp add: walk_root_def good_empty_state)
next
  case (Some n)
  with assms(1) have "wf_node n" by (simp add: wf_root_def)
  moreover from Some assms(2) have "walk c root n empty_state = Inr st"
    by (simp add: walk_root_def)
  ultimately show ?thesis using walk_good(1) good_empty_state by blast
qed

lemma collect_groups_merge:
  assumes "collect_groups c fs root = Inr (dic, small, st)"
  shows "walk_root c fs root = Inr st \<and>
         (\<exists>has. merge_small c (dict_keys (st_small st)) (st_dic st, st_small st, []) = (dic, small, has))"
  using assms
  by (auto simp: collect_groups_def split: sum.splits prod.splits)

lemma merged_good_dic:
  assumes g: "good_state st"
    and m: "merge_small c (dict_keys (st_small st)) (st_dic st, st_small st, []) = (dic, small, has)"
  shows "good_dic dic"
proof -
  from g have gd: "good_dic (st_dic st)" and gs: "good_small (st_small st)"
    by (simp_all add: good_state_def)
  from gs have dn: "distinct (dict_keys (st_small st))" by (simp add: good_small_def dict_keys_def)
  from merge_small_char[OF dn, of c "st_dic st" "st_small st" "[]"] m
  have keys: "map fst dic = map fst (st_dic st)"
    and ext: "\<forall>a. \<exists>ext. map_of dic a = map_option (\<lambda>v. v @ ext) (map_of (st_dic st) a) \<and>
        set ext \<subseteq> (\<Union>(k, v)\<in>set (st_small st). set v)"
    by auto
  from gd keys have dist: "distinct (map fst dic)" by (simp add: good_dic_def)
  have "\<forall>(k, fls)\<in>set dic. fls \<noteq> [] \<and> (\<forall>f\<in>set fls. basename f \<noteq> [])"
  proof (intro ballI, clarify)
    fix k fls assume "(k, fls) \<in> set dic"
    with dist have mk: "map_of dic k = Some fls" by simp
    from ext obtain ex where e1: "map_of dic k = map_option (\<lambda>v. v @ ex) (map_of (st_dic st) k)"
      and e2: "set ex \<subseteq> (\<Union>(k, v)\<in>set (st_small st). set v)" by blast
    from mk e1 obtain old where old: "map_of (st_dic st) k = Some old" "fls = old @ ex"
      by (cases "map_of (st_dic st) k") auto
    from old(1) have "(k, old) \<in> set (st_dic st)" by (rule map_of_SomeD)
    with gd have o: "old \<noteq> []" "\<forall>f\<in>set old. basename f \<noteq> []" by (auto simp: good_dic_def)
    have x: "\<forall>f\<in>set ex. basename f \<noteq> []"
    proof
      fix f assume "f \<in> set ex"
      with e2 obtain k' v where "(k', v) \<in> set (st_small st)" "f \<in> set v" by auto
      with gs show "basename f \<noteq> []" by (auto simp: good_small_def)
    qed
    from old o x show "fls \<noteq> [] \<and> (\<forall>f\<in>set fls. basename f \<noteq> [])" by auto
  qed
  with dist show ?thesis by (simp add: good_dic_def)
qed

lemma resolve_group_Sliced:
  assumes "resolve_group fls = Inr (Sliced m)"
  shows "m = mapped_files_of fls \<and> fls \<noteq> []"
proof -
  have "fls \<noteq> []"
  proof
    assume "fls = []"
    then have "resolve_group fls = Inr NotSlices"
      by (simp add: resolve_group_def Let_def postfixes_of_def remaining_of_def slices_of_def)
    with assms show False by simp
  qed
  moreover from assms have "m = mapped_files_of fls"
    by (auto simp: resolve_group_def Let_def split: if_splits)
  ultimately show ?thesis by simp
qed

lemma length_mapped_files: "length (mapped_files_of fls) = length fls"
  by (simp add: mapped_files_of_def Let_def length_slices_of)

lemma movie_of_group:
  assumes "map movie_key movs = map (\<lambda>(k, fls). Some k) d" "map mov_files movs = map snd d"
    and "(k, v) \<in> set d"
  shows "\<exists>m\<in>set movs. movie_key m = Some k \<and> mov_files m = v"
proof -
  from assms(3) obtain i where i: "i < length d" "d ! i = (k, v)" by (auto simp: in_set_conv_nth)
  from assms(1) have len: "length movs = length d" by (metis length_map)
  from assms(1) i len have "movie_key (movs ! i) = Some k"
    by (metis (mono_tags, lifting) nth_map case_prod_conv)
  moreover from assms(2) i len have "mov_files (movs ! i) = v"
    by (metis nth_map snd_conv)
  moreover from i len have "movs ! i \<in> set movs" by simp
  ultimately show ?thesis by blast
qed

lemma no_movie_without_group:
  assumes "map movie_key movs = map (\<lambda>(k, fls). Some k) d" "k \<notin> fst ` set d"
  shows "Some k \<notin> movie_key ` set movs"
proof -
  have "movie_key ` set movs = set (map movie_key movs)" by simp
  also have "\<dots> = (\<lambda>(k, fls). Some k) ` set d" using assms(1) by simp
  finally show ?thesis using assms(2) by force
qed

lemma scan_structure:
  assumes wf: "wf_root fs root" and cg: "collect_groups c fs root = Inr (dic, small, st)"
  shows "good_dic dic \<and>
    (\<exists>dic' dup movs.
       (\<forall>k. map_of dic' k =
          (case map_of dic k of None \<Rightarrow> None
           | Some fls \<Rightarrow> dic_after (resolve_group fls) (Some fls))) \<and>
       (\<forall>k. map_of dup k =
          (case map_of dic k of None \<Rightarrow> None
           | Some fls \<Rightarrow> dup_after (resolve_group fls) fls None)) \<and>
       distinct (map fst dic') \<and> distinct (map fst dup) \<and>
       map movie_key movs = map (\<lambda>(k, fls). Some k) dic' \<and>
       map mov_files movs = map snd dic' \<and>
       scan_movies c fs root =
         Inr \<lparr> res_movies = movs, res_failed = st_failed st,
               res_skipped = skipped_files_of small,
               res_msg = build_msg fs root dup \<rparr>)"
proof -
  from collect_groups_merge[OF cg] obtain has where
    w: "walk_root c fs root = Inr st"
    and m: "merge_small c (dict_keys (st_small st)) (st_dic st, st_small st, []) = (dic, small, has)"
    by blast
  have gd: "good_dic dic" by (rule merged_good_dic[OF walk_root_good[OF wf w] m])
  then have dist: "distinct (map fst dic)"
    and ne: "\<forall>(k, fls)\<in>set dic. fls \<noteq> [] \<and> (\<forall>f\<in>set fls. basename f \<noteq> [])"
    by (simp_all add: good_dic_def)
  have tot: "\<forall>(k, fls)\<in>set dic. \<exists>out. resolve_group fls = Inr out"
    using ne resolve_group_total by blast
  from resolve_groups_char[OF dist tot, of dic "[]"] obtain dic' dup where
    r: "resolve_groups dic (dic, []) = Inr (dic', dup)"
    and c1: "\<forall>k. map_of dic' k =
        (case map_of dic k of None \<Rightarrow> map_of dic k
         | Some fls \<Rightarrow> dic_after (resolve_group fls) (map_of dic k))"
    and c2: "\<forall>k. map_of dup k =
        (case map_of dic k of None \<Rightarrow> map_of [] k
         | Some fls \<Rightarrow> dup_after (resolve_group fls) fls (map_of [] k))"
    and d1: "distinct (map fst dic')" and d2: "distinct (map fst dup)"
    using dist by auto
  have c1': "\<forall>k. map_of dic' k =
        (case map_of dic k of None \<Rightarrow> None
         | Some fls \<Rightarrow> dic_after (resolve_group fls) (Some fls))"
  proof
    fix k show "map_of dic' k =
        (case map_of dic k of None \<Rightarrow> None
         | Some fls \<Rightarrow> dic_after (resolve_group fls) (Some fls))"
      using c1[rule_format, of k] by (cases "map_of dic k") simp_all
  qed
  have c2': "\<forall>k. map_of dup k =
        (case map_of dic k of None \<Rightarrow> None
         | Some fls \<Rightarrow> dup_after (resolve_group fls) fls None)"
  proof
    fix k show "map_of dup k =
        (case map_of dic k of None \<Rightarrow> None
         | Some fls \<Rightarrow> dup_after (resolve_group fls) fls None)"
      using c2[rule_format, of k] by (cases "map_of dic k") simp_all
  qed
  have ne': "\<forall>(k, m)\<in>set dic'. m \<noteq> []"
  proof (intro ballI, clarify)
    fix k assume "(k, []) \<in> set dic'"
    with d1 have mk: "map_of dic' k = Some []" by simp
    with c1'[rule_format, of k] obtain fls where f: "map_of dic k = Some fls"
      and a: "dic_after (resolve_group fls) (Some fls) = Some []"
      by (cases "map_of dic k") simp_all
    from f have "(k, fls) \<in> set dic" by (rule map_of_SomeD)
    with ne tot have fne: "fls \<noteq> []" and "\<exists>out. resolve_group fls = Inr out" by auto
    then obtain out where out: "resolve_group fls = Inr out" by blast
    show False
    proof (cases out)
      case (Sliced m')
      with out resolve_group_Sliced[of fls m'] have "m' = mapped_files_of fls" by simp
      with a out Sliced have "mapped_files_of fls = []" by simp
      with length_mapped_files[of fls] fne show False by simp
    qed (use a out fne in simp_all)
  qed
  from make_movies_char[OF ne', of c] obtain movs where
    mm: "make_movies c dic' = Inr movs"
    and k: "map movie_key movs = map (\<lambda>(k, fls). Some k) dic'"
    and f: "map mov_files movs = map snd dic'" by blast
  have "scan_movies c fs root =
         Inr \<lparr> res_movies = movs, res_failed = st_failed st,
               res_skipped = skipped_files_of small,
               res_msg = build_msg fs root dup \<rparr>"
    using cg r mm by (simp add: scan_movies_def)
  with gd c1' c2' d1 d2 k f show ?thesis by blast
qed

section \<open>Duplicates across directories\<close>

lemma group_lookup:
  assumes "good_dic dic" "(avid, fls) \<in> set dic"
  shows "map_of dic avid = Some fls"
  using assms by (simp add: good_dic_def)

text \<open>
  Claim C2. In a scan of a well-formed tree whose walk raised nothing, a group of two or
  more files from more than one directory is a duplicate: the scan still returns a
  result, no returned record has the identifier of the group, the message has a line
  with the relative path of every file of the group, and every identifier with a single
  file still has its record.
\<close>

theorem cross_directory_rejected:
  assumes "wf_root fs root"
    and "collect_groups c fs root = Inr (dic, small, st)"
    and "(avid, fls) \<in> set dic"
    and "2 \<le> length fls"
    and "1 < card (set (map dirname fls))"
  shows "\<exists>res. scan_movies c fs root = Inr res \<and>
           resolve_group fls = Inr CrossDir \<and>
           Some avid \<notin> movie_key ` set (res_movies res) \<and>
           (\<forall>f \<in> set fls. sublist (''  '' @ relpath fs f root @ [CHR 0x0A]) (res_msg res)) \<and>
           (\<forall>(k, v) \<in> set dic. length v = 1 \<longrightarrow>
              (\<exists>m \<in> set (res_movies res). movie_key m = Some k \<and> mov_files m = v))"
proof -
  from scan_structure[OF assms(1,2)] obtain dic' dup movs where
    gd: "good_dic dic"
    and c1: "\<forall>k. map_of dic' k =
          (case map_of dic k of None \<Rightarrow> None
           | Some fls \<Rightarrow> dic_after (resolve_group fls) (Some fls))"
    and c2: "\<forall>k. map_of dup k =
          (case map_of dic k of None \<Rightarrow> None
           | Some fls \<Rightarrow> dup_after (resolve_group fls) fls None)"
    and d1: "distinct (map fst dic')" and d2: "distinct (map fst dup)"
    and mk: "map movie_key movs = map (\<lambda>(k, fls). Some k) dic'"
    and mf: "map mov_files movs = map snd dic'"
    and sc: "scan_movies c fs root =
         Inr \<lparr> res_movies = movs, res_failed = st_failed st,
               res_skipped = skipped_files_of small,
               res_msg = build_msg fs root dup \<rparr>"
    by blast
  have rg: "resolve_group fls = Inr CrossDir"
    using assms(4,5) by (simp add: resolve_group_def)
  have lk: "map_of dic avid = Some fls" by (rule group_lookup[OF gd assms(3)])
  have "map_of dic' avid = None" using c1[rule_format, of avid] lk rg by simp
  then have "avid \<notin> fst ` set dic'" by (simp add: map_of_eq_None_iff)
  then have no: "Some avid \<notin> movie_key ` set movs" by (rule no_movie_without_group[OF mk])
  have "map_of dup avid = Some fls" using c2[rule_format, of avid] lk rg by simp
  then have "(avid, fls) \<in> set dup" by (rule map_of_SomeD)
  then have msg: "\<forall>f \<in> set fls. sublist (''  '' @ relpath fs f root @ [CHR 0x0A]) (build_msg fs root dup)"
    using msg_contains by blast
  have single: "\<forall>(k, v) \<in> set dic. length v = 1 \<longrightarrow>
              (\<exists>m \<in> set movs. movie_key m = Some k \<and> mov_files m = v)"
  proof (intro ballI, clarify)
    fix k v assume kv: "(k, v) \<in> set dic" "length v = 1"
    then have "resolve_group v = Inr Single" by (simp add: resolve_group_def)
    with c1[rule_format, of k] group_lookup[OF gd kv(1)] have "map_of dic' k = Some v" by simp
    then have "(k, v) \<in> set dic'" by (rule map_of_SomeD)
    from movie_of_group[OF mk mf this]
    show "\<exists>m \<in> set movs. movie_key m = Some k \<and> mov_files m = v" .
  qed
  show ?thesis using sc rg no msg single by simp
qed

theorem cross_directory_rejected_witness:
  "wf_root xy_fs ''/root'' \<and>
   collect_groups same_id_config xy_fs ''/root'' =
     Inr ([(''ABC-123'', [''/root/A/x.mp4'', ''/root/B/y.mp4'']), (''XYZ-9'', [''/root/C/z.mp4''])],
          [],
          \<lparr> st_dic = [(''ABC-123'', [''/root/A/x.mp4'', ''/root/B/y.mp4'']),
                       (''XYZ-9'', [''/root/C/z.mp4''])],
            st_small = [], st_failed = [] \<rparr>) \<and>
   1 < card (set (map dirname [''/root/A/x.mp4'', ''/root/B/y.mp4''])) \<and>
   (\<exists>res. scan_movies same_id_config xy_fs ''/root'' = Inr res \<and>
      Some ''ABC-123'' \<notin> movie_key ` set (res_movies res) \<and>
      sublist (''  '' @ relpath xy_fs ''/root/A/x.mp4'' ''/root'' @ [CHR 0x0A]) (res_msg res) \<and>
      sublist (''  '' @ relpath xy_fs ''/root/B/y.mp4'' ''/root'' @ [CHR 0x0A]) (res_msg res) \<and>
      (\<exists>m \<in> set (res_movies res). movie_key m = Some ''XYZ-9'' \<and> mov_files m = [''/root/C/z.mp4''])) \<and>
   relpath xy_fs ''/root/A/x.mp4'' ''/root'' = ''A/x.mp4'' \<and>
   relpath xy_fs ''/root/B/y.mp4'' ''/root'' = ''B/y.mp4''"
proof -
  have a: "wf_root xy_fs ''/root''" by code_simp
  have b: "collect_groups same_id_config xy_fs ''/root'' =
     Inr ([(''ABC-123'', [''/root/A/x.mp4'', ''/root/B/y.mp4'']), (''XYZ-9'', [''/root/C/z.mp4''])],
          [],
          \<lparr> st_dic = [(''ABC-123'', [''/root/A/x.mp4'', ''/root/B/y.mp4'']),
                       (''XYZ-9'', [''/root/C/z.mp4''])],
            st_small = [], st_failed = [] \<rparr>)" by code_simp
  have c: "1 < card (set (map dirname [''/root/A/x.mp4'', ''/root/B/y.mp4'']))" by code_simp
  have d: "relpath xy_fs ''/root/A/x.mp4'' ''/root'' = ''A/x.mp4''" by code_simp
  have e: "relpath xy_fs ''/root/B/y.mp4'' ''/root'' = ''B/y.mp4''" by code_simp
  from cross_directory_rejected[OF a b _ _ c, of "''ABC-123''"]
  obtain res where r: "scan_movies same_id_config xy_fs ''/root'' = Inr res"
    "Some ''ABC-123'' \<notin> movie_key ` set (res_movies res)"
    "\<forall>f \<in> set [''/root/A/x.mp4'', ''/root/B/y.mp4''].
        sublist (''  '' @ relpath xy_fs f ''/root'' @ [CHR 0x0A]) (res_msg res)"
    "\<forall>(k, v) \<in> set [(''ABC-123'', [''/root/A/x.mp4'', ''/root/B/y.mp4'']), (''XYZ-9'', [''/root/C/z.mp4''])].
        length v = 1 \<longrightarrow> (\<exists>m \<in> set (res_movies res). movie_key m = Some k \<and> mov_files m = v)"
    by auto
  from r(3) have s: "sublist (''  '' @ relpath xy_fs ''/root/A/x.mp4'' ''/root'' @ [CHR 0x0A]) (res_msg res)"
    "sublist (''  '' @ relpath xy_fs ''/root/B/y.mp4'' ''/root'' @ [CHR 0x0A]) (res_msg res)"
    by simp_all
  from r(4) have z: "\<exists>m \<in> set (res_movies res). movie_key m = Some ''XYZ-9'' \<and> mov_files m = [''/root/C/z.mp4'']"
    by simp
  show ?thesis using a b c d e r(1,2) s z by blast
qed

section \<open>The slice check within a scan\<close>

lemma sorted_tokens_strict:
  assumes "distinct (slices_of fls)"
  shows "sorted_wrt (<) (map (slice_token (commonprefix (map basename fls))) (mapped_files_of fls))"
  using sort_strict[OF assms] by (simp add: mapped_files_tokens[OF assms])

text \<open>
  What the loop over the groups does with a group of two or more files that lie in one
  directory, in a scan of a well-formed tree whose walk raised nothing. The scan returns a
  result. When all entries of \<open>postfixes\<close> are equal, the entries of \<open>slices\<close> are
  distinct and, sorted, run without a gap from \<open>0\<close>, \<open>1\<close> or \<open>a\<close>, the record of
  the group holds the same files in the ascending order of their entries in \<open>slices\<close>.
  In every other case the group is a duplicate: no record carries its identifier and the
  message lists its files. The three files \<open>movie.a.mp4\<close>, \<open>movie.b.mp4\<close> and
  \<open>movie.c.mp4\<close> come back in the order a, b, c.
\<close>

lemma resolve_checks:
  assumes "wf_root fs root"
    and "collect_groups c fs root = Inr (dic, small, st)"
    and "(avid, fls) \<in> set dic"
    and "2 \<le> length fls"
    and "card (set (map dirname fls)) \<le> 1"
  shows "(\<exists>res. scan_movies c fs root = Inr res \<and>
           (if checks_pass fls
            then resolve_group fls = Inr (Sliced (mapped_files_of fls)) \<and>
                 mset (mapped_files_of fls) = mset fls \<and>
                 map (slice_token (commonprefix (map basename fls))) (mapped_files_of fls)
                   = sort (slices_of fls) \<and>
                 sorted_wrt (<)
                   (map (slice_token (commonprefix (map basename fls))) (mapped_files_of fls)) \<and>
                 (\<exists>m \<in> set (res_movies res).
                    movie_key m = Some avid \<and> mov_files m = mapped_files_of fls)
            else (resolve_group fls = Inr NotSlices \<or> resolve_group fls = Inr BadRun) \<and>
                 Some avid \<notin> movie_key ` set (res_movies res) \<and>
                 (\<forall>f \<in> set fls.
                    sublist (''  '' @ relpath fs f root @ [CHR 0x0A]) (res_msg res)))) \<and>
         resolve_group [''/d/movie.b.mp4'', ''/d/movie.c.mp4'', ''/d/movie.a.mp4''] =
           Inr (Sliced [''/d/movie.a.mp4'', ''/d/movie.b.mp4'', ''/d/movie.c.mp4''])"
proof -
  from scan_structure[OF assms(1,2)] obtain dic' dup movs where
    gd: "good_dic dic"
    and c1: "\<forall>k. map_of dic' k =
          (case map_of dic k of None \<Rightarrow> None
           | Some fls \<Rightarrow> dic_after (resolve_group fls) (Some fls))"
    and c2: "\<forall>k. map_of dup k =
          (case map_of dic k of None \<Rightarrow> None
           | Some fls \<Rightarrow> dup_after (resolve_group fls) fls None)"
    and mk: "map movie_key movs = map (\<lambda>(k, fls). Some k) dic'"
    and mf: "map mov_files movs = map snd dic'"
    and sc: "scan_movies c fs root =
         Inr \<lparr> res_movies = movs, res_failed = st_failed st,
               res_skipped = skipped_files_of small,
               res_msg = build_msg fs root dup \<rparr>"
    by blast
  have lk: "map_of dic avid = Some fls" by (rule group_lookup[OF gd assms(3)])
  from gd assms(3) have names: "\<forall>f\<in>set fls. basename f \<noteq> []"
    by (auto simp: good_dic_def)
  have l1: "length fls \<noteq> 1" and ne: "fls \<noteq> []" using assms(4) by auto
  note acc = resolve_group_accept[OF l1 ne assms(5) remaining_nonempty[OF names]]
  have main: "if checks_pass fls
            then resolve_group fls = Inr (Sliced (mapped_files_of fls)) \<and>
                 mset (mapped_files_of fls) = mset fls \<and>
                 map (slice_token (commonprefix (map basename fls))) (mapped_files_of fls)
                   = sort (slices_of fls) \<and>
                 sorted_wrt (<)
                   (map (slice_token (commonprefix (map basename fls))) (mapped_files_of fls)) \<and>
                 (\<exists>m \<in> set movs. movie_key m = Some avid \<and> mov_files m = mapped_files_of fls)
            else (resolve_group fls = Inr NotSlices \<or> resolve_group fls = Inr BadRun) \<and>
                 Some avid \<notin> movie_key ` set movs \<and>
                 (\<forall>f \<in> set fls.
                    sublist (''  '' @ relpath fs f root @ [CHR 0x0A]) (build_msg fs root dup))"
  proof (cases "checks_pass fls")
    case True
    then have d: "distinct (slices_of fls)" by (simp add: checks_pass_def)
    from acc True have rg: "resolve_group fls = Inr (Sliced (mapped_files_of fls))" by simp
    with c1[rule_format, of avid] lk have "map_of dic' avid = Some (mapped_files_of fls)" by simp
    then have "(avid, mapped_files_of fls) \<in> set dic'" by (rule map_of_SomeD)
    from movie_of_group[OF mk mf this]
    have "\<exists>m \<in> set movs. movie_key m = Some avid \<and> mov_files m = mapped_files_of fls" .
    with True rg mapped_files_perm[OF d] mapped_files_tokens[OF d] sorted_tokens_strict[OF d]
    show ?thesis by simp
  next
    case False
    with acc have rg: "resolve_group fls = Inr NotSlices \<or> resolve_group fls = Inr BadRun"
      by (simp split: if_splits)
    then have a1: "dic_after (resolve_group fls) (Some fls) = None"
      and a2: "dup_after (resolve_group fls) fls None = Some fls" by auto
    from c1[rule_format, of avid] lk a1 have "map_of dic' avid = None" by simp
    then have "avid \<notin> fst ` set dic'" by (simp add: map_of_eq_None_iff)
    then have no: "Some avid \<notin> movie_key ` set movs" by (rule no_movie_without_group[OF mk])
    from c2[rule_format, of avid] lk a2 have "map_of dup avid = Some fls" by simp
    then have "(avid, fls) \<in> set dup" by (rule map_of_SomeD)
    then have "\<forall>f \<in> set fls. sublist (''  '' @ relpath fs f root @ [CHR 0x0A]) (build_msg fs root dup)"
      using msg_contains by blast
    with False rg no show ?thesis by simp
  qed
  have ex: "resolve_group [''/d/movie.b.mp4'', ''/d/movie.c.mp4'', ''/d/movie.a.mp4''] =
           Inr (Sliced [''/d/movie.a.mp4'', ''/d/movie.b.mp4'', ''/d/movie.c.mp4''])"
    by code_simp
  define res where "res = \<lparr> res_movies = movs, res_failed = st_failed st,
               res_skipped = skipped_files_of small,
               res_msg = build_msg fs root dup \<rparr>"
  have fields: "res_movies res = movs" "res_msg res = build_msg fs root dup"
    by (simp_all add: res_def)
  have sc': "scan_movies c fs root = Inr res" using sc by (simp only: res_def)
  have main': "if checks_pass fls
            then resolve_group fls = Inr (Sliced (mapped_files_of fls)) \<and>
                 mset (mapped_files_of fls) = mset fls \<and>
                 map (slice_token (commonprefix (map basename fls))) (mapped_files_of fls)
                   = sort (slices_of fls) \<and>
                 sorted_wrt (<)
                   (map (slice_token (commonprefix (map basename fls))) (mapped_files_of fls)) \<and>
                 (\<exists>m \<in> set (res_movies res).
                    movie_key m = Some avid \<and> mov_files m = mapped_files_of fls)
            else (resolve_group fls = Inr NotSlices \<or> resolve_group fls = Inr BadRun) \<and>
                 Some avid \<notin> movie_key ` set (res_movies res) \<and>
                 (\<forall>f \<in> set fls.
                    sublist (''  '' @ relpath fs f root @ [CHR 0x0A]) (res_msg res))"
    using main by (simp only: fields)
  from sc' main' ex show ?thesis by blast
qed

lemma resolve_checks_example:
  "wf_root parts_fs ''/root'' \<and>
   collect_groups demo_config parts_fs ''/root'' =
     Inr ([(''XYZ-9'', [''/root/B/XYZ-9.b.mp4'', ''/root/B/XYZ-9.a.mp4'', ''/root/B/XYZ-9.c.mp4''])],
          [(''trailer.mp4'', [''/root/B/trailer.mp4''])],
          \<lparr> st_dic = [(''XYZ-9'', [''/root/B/XYZ-9.b.mp4'', ''/root/B/XYZ-9.a.mp4''])],
            st_small = [(''XYZ-9.c.mp4'', [''/root/B/XYZ-9.c.mp4'']),
                        (''trailer.mp4'', [''/root/B/trailer.mp4''])],
            st_failed = [] \<rparr>) \<and>
   card (set (map dirname [''/root/B/XYZ-9.b.mp4'', ''/root/B/XYZ-9.a.mp4'', ''/root/B/XYZ-9.c.mp4''])) \<le> 1 \<and>
   checks_pass [''/root/B/XYZ-9.b.mp4'', ''/root/B/XYZ-9.a.mp4'', ''/root/B/XYZ-9.c.mp4''] \<and>
   mapped_files_of [''/root/B/XYZ-9.b.mp4'', ''/root/B/XYZ-9.a.mp4'', ''/root/B/XYZ-9.c.mp4'']
     = [''/root/B/XYZ-9.a.mp4'', ''/root/B/XYZ-9.b.mp4'', ''/root/B/XYZ-9.c.mp4''] \<and>
   (\<exists>res. scan_movies demo_config parts_fs ''/root'' = Inr res \<and>
      (\<exists>m \<in> set (res_movies res). movie_key m = Some ''XYZ-9'' \<and>
         mov_files m = [''/root/B/XYZ-9.a.mp4'', ''/root/B/XYZ-9.b.mp4'', ''/root/B/XYZ-9.c.mp4''])) \<and>
   wf_root gap_fs ''/root'' \<and>
   collect_groups demo_config gap_fs ''/root'' =
     Inr ([(''XYZ-9'', [''/root/B/XYZ-9.a.mp4'', ''/root/B/XYZ-9.c.mp4''])], [],
          \<lparr> st_dic = [(''XYZ-9'', [''/root/B/XYZ-9.a.mp4'', ''/root/B/XYZ-9.c.mp4''])],
            st_small = [], st_failed = [] \<rparr>) \<and>
   card (set (map dirname [''/root/B/XYZ-9.a.mp4'', ''/root/B/XYZ-9.c.mp4''])) \<le> 1 \<and>
   \<not> checks_pass [''/root/B/XYZ-9.a.mp4'', ''/root/B/XYZ-9.c.mp4''] \<and>
   (\<exists>res. scan_movies demo_config gap_fs ''/root'' = Inr res \<and>
      Some ''XYZ-9'' \<notin> movie_key ` set (res_movies res) \<and>
      sublist (''  '' @ relpath gap_fs ''/root/B/XYZ-9.a.mp4'' ''/root'' @ [CHR 0x0A]) (res_msg res) \<and>
      sublist (''  '' @ relpath gap_fs ''/root/B/XYZ-9.c.mp4'' ''/root'' @ [CHR 0x0A]) (res_msg res))"
proof -
  let ?p = "[''/root/B/XYZ-9.b.mp4'', ''/root/B/XYZ-9.a.mp4'', ''/root/B/XYZ-9.c.mp4'']"
  let ?g = "[''/root/B/XYZ-9.a.mp4'', ''/root/B/XYZ-9.c.mp4'']"
  have a1: "wf_root parts_fs ''/root''" by code_simp
  have a2: "collect_groups demo_config parts_fs ''/root'' =
     Inr ([(''XYZ-9'', ?p)],
          [(''trailer.mp4'', [''/root/B/trailer.mp4''])],
          \<lparr> st_dic = [(''XYZ-9'', [''/root/B/XYZ-9.b.mp4'', ''/root/B/XYZ-9.a.mp4''])],
            st_small = [(''XYZ-9.c.mp4'', [''/root/B/XYZ-9.c.mp4'']),
                        (''trailer.mp4'', [''/root/B/trailer.mp4''])],
            st_failed = [] \<rparr>)" by code_simp
  have a3: "card (set (map dirname ?p)) \<le> 1" by code_simp
  have a4: "checks_pass ?p" by code_simp
  have a5: "mapped_files_of ?p
     = [''/root/B/XYZ-9.a.mp4'', ''/root/B/XYZ-9.b.mp4'', ''/root/B/XYZ-9.c.mp4'']" by code_simp
  have b1: "wf_root gap_fs ''/root''" by code_simp
  have b2: "collect_groups demo_config gap_fs ''/root'' =
     Inr ([(''XYZ-9'', ?g)], [],
          \<lparr> st_dic = [(''XYZ-9'', ?g)], st_small = [], st_failed = [] \<rparr>)" by code_simp
  have b3: "card (set (map dirname ?g)) \<le> 1" by code_simp
  have b4: "\<not> checks_pass ?g" by code_simp
  from resolve_checks[OF a1 a2 _ _ a3, of "''XYZ-9''"] a4 a5
  have pa: "\<exists>res. scan_movies demo_config parts_fs ''/root'' = Inr res \<and>
      (\<exists>m \<in> set (res_movies res). movie_key m = Some ''XYZ-9'' \<and>
         mov_files m = [''/root/B/XYZ-9.a.mp4'', ''/root/B/XYZ-9.b.mp4'', ''/root/B/XYZ-9.c.mp4''])"
    by auto
  from resolve_checks[OF b1 b2 _ _ b3, of "''XYZ-9''"] b4
  obtain res where r: "scan_movies demo_config gap_fs ''/root'' = Inr res"
      "Some ''XYZ-9'' \<notin> movie_key ` set (res_movies res)"
      "\<forall>f \<in> set ?g. sublist (''  '' @ relpath gap_fs f ''/root'' @ [CHR 0x0A]) (res_msg res)"
    by auto
  from r(3) have s: "sublist (''  '' @ relpath gap_fs ''/root/B/XYZ-9.a.mp4'' ''/root'' @ [CHR 0x0A]) (res_msg res)"
      "sublist (''  '' @ relpath gap_fs ''/root/B/XYZ-9.c.mp4'' ''/root'' @ [CHR 0x0A]) (res_msg res)"
    by simp_all
  show ?thesis using a1 a2 a3 a4 a5 pa b1 b2 b3 b4 r(1,2) s by blast
qed

text \<open>
  Claim C1 does not hold of the code. In the folder \<open>ABC-123\<close> the ten files
  \<open>1.mp4\<close> to \<open>9.mp4\<close> and \<open>:.mp4\<close> have no common prefix. The pattern captures
  nothing at the head of \<open>:.mp4\<close>, for the colon is neither a letter nor a digit, and
  the substitution leaves that name as it is; the loop takes its first character for a
  slice all the same. The rest of each name is \<open>.mp4\<close> and the colon is the code point
  after \<open>9\<close>, so the scan returns one movie with all ten files. Two files whose
  remainders differ in case, \<open>.MP4\<close> and \<open>.mp4\<close>, are accepted as well.
\<close>

theorem slice_check_accepts_uncaptured:
  "(case scan_movies demo_config digits_fs ''/root'' of
      Inl e \<Rightarrow> False
    | Inr res \<Rightarrow>
        map (\<lambda>m. (mov_dvdid m, mov_files m)) (res_movies res) =
          [(Some ''ABC-123'',
            [''/root/ABC-123/1.mp4'', ''/root/ABC-123/2.mp4'', ''/root/ABC-123/3.mp4'',
             ''/root/ABC-123/4.mp4'', ''/root/ABC-123/5.mp4'', ''/root/ABC-123/6.mp4'',
             ''/root/ABC-123/7.mp4'', ''/root/ABC-123/8.mp4'', ''/root/ABC-123/9.mp4'',
             ''/root/ABC-123/:.mp4''])]
        \<and> res_msg res = []) \<and>
   commonprefix [''1.mp4'', ''2.mp4'', ''3.mp4'', ''4.mp4'', ''5.mp4'', ''6.mp4'', ''7.mp4'',
                 ''8.mp4'', ''9.mp4'', '':.mp4''] = [] \<and>
   slice_match_at [] '':.mp4'' = None \<and>
   \<not> is_slice_token (CHR '':'') \<and>
   slice_sub [] '':.mp4'' = '':.mp4'' \<and>
   slice_token [] ''/root/ABC-123/:.mp4'' = CHR '':'' \<and>
   (case scan_movies demo_config case_fs ''/root'' of
      Inl e \<Rightarrow> False
    | Inr res \<Rightarrow>
        map (\<lambda>m. (mov_dvdid m, mov_files m)) (res_movies res) =
          [(Some ''XYZ-9'', [''/root/B/XYZ-9a.MP4'', ''/root/B/XYZ-9b.mp4''])]
        \<and> res_msg res = [])"
proof -
  have a: "(case scan_movies demo_config digits_fs ''/root'' of
      Inl e \<Rightarrow> False
    | Inr res \<Rightarrow>
        map (\<lambda>m. (mov_dvdid m, mov_files m)) (res_movies res) =
          [(Some ''ABC-123'',
            [''/root/ABC-123/1.mp4'', ''/root/ABC-123/2.mp4'', ''/root/ABC-123/3.mp4'',
             ''/root/ABC-123/4.mp4'', ''/root/ABC-123/5.mp4'', ''/root/ABC-123/6.mp4'',
             ''/root/ABC-123/7.mp4'', ''/root/ABC-123/8.mp4'', ''/root/ABC-123/9.mp4'',
             ''/root/ABC-123/:.mp4''])]
        \<and> res_msg res = [])" by code_simp
  have b: "commonprefix [''1.mp4'', ''2.mp4'', ''3.mp4'', ''4.mp4'', ''5.mp4'', ''6.mp4'', ''7.mp4'',
                 ''8.mp4'', ''9.mp4'', '':.mp4''] = []" by code_simp
  have c: "slice_match_at [] '':.mp4'' = None" by code_simp
  have d: "\<not> is_slice_token (CHR '':'')" by code_simp
  have e: "slice_sub [] '':.mp4'' = '':.mp4''" by code_simp
  have f: "slice_token [] ''/root/ABC-123/:.mp4'' = CHR '':''" by code_simp
  have g: "(case scan_movies demo_config case_fs ''/root'' of
      Inl e \<Rightarrow> False
    | Inr res \<Rightarrow>
        map (\<lambda>m. (mov_dvdid m, mov_files m)) (res_movies res) =
          [(Some ''XYZ-9'', [''/root/B/XYZ-9a.MP4'', ''/root/B/XYZ-9b.mp4''])]
        \<and> res_msg res = [])" by code_simp
  show ?thesis by (intro conjI a b c d e f g)
qed

section \<open>The small videos within a scan\<close>


lemma collect_groups_of_walk:
  assumes "walk_root c fs root = Inr st"
  shows "\<exists>dic small has.
           merge_small c (dict_keys (st_small st)) (st_dic st, st_small st, []) = (dic, small, has) \<and>
           collect_groups c fs root = Inr (dic, small, st)"
proof -
  obtain dic small has where
    "merge_small c (dict_keys (st_small st)) (st_dic st, st_small st, []) = (dic, small, has)"
    by (cases "merge_small c (dict_keys (st_small st)) (st_dic st, st_small st, [])") auto
  with assms show ?thesis by (simp add: collect_groups_def)
qed



section \<open>When the scan runs to its end, and what its records look like\<close>

lemma prune_dirs_total:
  assumes "\<not> skip_nfo_dir c" "distinct names" "set names \<subseteq> set dirnames"
  shows "\<exists>kept. prune_dirs c es names dirnames = Inr kept"
  using assms(2,3)
proof (induction names arbitrary: dirnames)
  case Nil
  then show ?case by simp
next
  case (Cons name names)
  from Cons.prems have d: "distinct names" and fresh: "name \<notin> set names"
    and mem: "name \<in> set dirnames" and sub: "set names \<subseteq> set dirnames" by auto
  show ?case
  proof (cases "ignored_folder c name")
    case True
    have "set names \<subseteq> set (remove1 name dirnames)"
    proof
      fix x assume x: "x \<in> set names"
      with fresh have "x \<noteq> name" by auto
      with x sub show "x \<in> set (remove1 name dirnames)" by auto
    qed
    from Cons.IH[OF d this] True mem assms(1) show ?thesis by (simp add: py_remove_def)
  next
    case False
    from Cons.IH[OF d sub] False assms(1) show ?thesis by simp
  qed
qed

lemma distinct_dir_names: "distinct (map fst es) \<Longrightarrow> distinct (dir_names es)"
  by (simp add: dir_names_def distinct_map_filter)

lemma walk_total:
  "wf_node n \<Longrightarrow> \<not> skip_nfo_dir c \<Longrightarrow> \<exists>st'. walk c dirpath n st = Inr st'"
  "wf_node (Dir True es) \<Longrightarrow> \<not> skip_nfo_dir c \<Longrightarrow> \<exists>st'. walk_dirs c dirpath es names st = Inr st'"
proof (induction c dirpath n st and c dirpath es names st rule: walk_walk_dirs.induct)
  case (1 c dirpath sz st)
  then show ?case by simp
next
  case (2 c dirpath readable es st)
  show ?case
  proof (cases readable)
    case False
    then show ?thesis by simp
  next
    case True
    from "2.prems"(1) have "distinct (dir_names es)" by (simp add: distinct_dir_names)
    from prune_dirs_total[OF "2.prems"(2) this, of "dir_names es" es]
    obtain kept where p: "prune_dirs c es (dir_names es) (dir_names es) = Inr kept" by auto
    have wf: "wf_node (Dir True es)" using "2.prems"(1) by simp
    from "2.IH"[OF _ p wf "2.prems"(2)] True p show ?thesis by simp
  qed
next
  case (3 c dirpath es st)
  then show ?case by simp
next
  case (4 c dirpath es name dirnames st)
  show ?case
  proof (cases "map_of es name")
    case None
    from "4.IH"(1)[OF None "4.prems"] None show ?thesis by simp
  next
    case (Some n)
    have "wf_node n" by (rule wf_child[OF "4.prems"(1) Some])
    from "4.IH"(2)[OF Some this "4.prems"(2)] obtain st1 where
      w1: "walk c (path_join dirpath name) n st = Inr st1" by blast
    from "4.IH"(3)[OF Some w1 "4.prems"] Some w1 show ?thesis by simp
  qed
qed

text \<open>
  With folders that hold an \<open>.nfo\<close> file not to be skipped, the scan of a well-formed
  tree always returns a result.
\<close>

lemma scan_total:
  assumes "wf_root fs root" "\<not> skip_nfo_dir c"
  shows "\<exists>res. scan_movies c fs root = Inr res"
proof -
  have "\<exists>st. walk_root c fs root = Inr st"
  proof (cases "resolve fs root")
    case None
    then show ?thesis by (simp add: walk_root_def)
  next
    case (Some n)
    with assms(1) have "wf_node n" by (simp add: wf_root_def)
    from walk_total(1)[OF this assms(2)] Some show ?thesis by (simp add: walk_root_def)
  qed
  then obtain st where "walk_root c fs root = Inr st" by blast
  from collect_groups_of_walk[OF this] obtain dic small where
    "collect_groups c fs root = Inr (dic, small, st)" by blast
  from scan_structure[OF assms(1) this] show ?thesis by blast
qed

lemma resolve_group_Sliced_checks:
  assumes "resolve_group fls = Inr (Sliced m)"
  shows "card (set (map dirname fls)) \<le> 1 \<and> distinct (slices_of fls)"
  using assms
  by (auto simp: resolve_group_def Let_def length_card_iff_distinct split: if_splits)

text \<open>
  Every record of a scan of a well-formed tree has a file, and the files of a record
  with two or more files lie in one directory.
\<close>

lemma scan_records_shape:
  assumes "wf_root fs root" "scan_movies c fs root = Inr res" "m \<in> set (res_movies res)"
  shows "mov_files m \<noteq> [] \<and>
         (2 \<le> length (mov_files m) \<longrightarrow> card (set (map dirname (mov_files m))) \<le> 1)"
proof -
  from assms(2) obtain dic small st where cg: "collect_groups c fs root = Inr (dic, small, st)"
    by (auto simp: scan_movies_def split: sum.splits)
  from scan_structure[OF assms(1) cg] obtain dic' dup movs where
    gd: "good_dic dic"
    and c1: "\<forall>k. map_of dic' k =
          (case map_of dic k of None \<Rightarrow> None
           | Some fls \<Rightarrow> dic_after (resolve_group fls) (Some fls))"
    and d1: "distinct (map fst dic')"
    and mf: "map mov_files movs = map snd dic'"
    and sc: "scan_movies c fs root =
         Inr \<lparr> res_movies = movs, res_failed = st_failed st,
               res_skipped = skipped_files_of small,
               res_msg = build_msg fs root dup \<rparr>"
    by blast
  from sc assms(2,3) have "m \<in> set movs" by auto
  then have "mov_files m \<in> set (map mov_files movs)" by simp
  with mf obtain k where kv: "(k, mov_files m) \<in> set dic'" by auto
  with d1 have "map_of dic' k = Some (mov_files m)" by simp
  with c1[rule_format, of k] obtain fls where f: "map_of dic k = Some fls"
    and a: "dic_after (resolve_group fls) (Some fls) = Some (mov_files m)"
    by (cases "map_of dic k") simp_all
  from f have "(k, fls) \<in> set dic" by (rule map_of_SomeD)
  with gd have fne: "fls \<noteq> []" and names: "\<forall>f\<in>set fls. basename f \<noteq> []"
    by (auto simp: good_dic_def)
  from resolve_group_total[OF names] obtain out where out: "resolve_group fls = Inr out" by blast
  show ?thesis
  proof (cases out)
    case Single
    with out have "length fls = 1" by (auto simp: resolve_group_def Let_def split: if_splits)
    with a out Single show ?thesis by auto
  next
    case (Sliced m')
    with out resolve_group_Sliced[of fls m'] have m': "m' = mapped_files_of fls" by simp
    with a out Sliced have eq: "mov_files m = mapped_files_of fls" by simp
    from resolve_group_Sliced_checks out Sliced
    have one: "card (set (map dirname fls)) \<le> 1" and d: "distinct (slices_of fls)" by blast+
    from mapped_files_perm[OF d] have "set (mapped_files_of fls) = set fls"
      by (rule mset_eq_setD)
    then have "set (map dirname (mapped_files_of fls)) = set (map dirname fls)" by simp
    with one eq fne length_mapped_files[of fls] show ?thesis by auto
  qed (use a out in simp_all)
qed


end
